theory Spec2Isabelle
  imports Main "HOL-Library.Char_ord" "HOL-Library.List_Lexorder"
begin

section \<open>flaclink: album detection, the fingerprint registry and hardlink replication\<close>

text \<open>
  A shallow embedding of \<^verbatim>\<open>main.go\<close>. Every function of the program that the
  properties below speak about is a HOL function of the same name; the calls into the
  operating system and into the two libraries the program uses (\<^verbatim>\<open>encoding/gob\<close>
  and \<^verbatim>\<open>bbolt\<close>) are the small functions of the first three subsections.

  Go strings and byte slices are both byte sequences, so both are \<^typ>\<open>string\<close>.
\<close>

type_synonym bytes = string

datatype error =
    ENOTDIR | EACCES | EEXIST | EXDEV | EPERM
  | ErrTimeout | ErrKeyRequired | ErrKeyTooLarge | ErrValueTooLarge
  | ErrMessageTooBig

text \<open>
  A call either returns a value, or ends the process through \<^verbatim>\<open>log.Fatal\<close>
  (which is \<^verbatim>\<open>os.Exit(1)\<close>: no deferred call runs, nothing is rolled back).
  Both carry the state the call leaves behind.
\<close>

datatype ('a, 's) res = Returned 'a 's | Exited 's


subsection \<open>Paths (\<^verbatim>\<open>path/filepath\<close>)\<close>

text \<open>
  \<^verbatim>\<open>filepath.Join\<close> of a directory path and one entry name. The program's roots
  are cleaned by \<^verbatim>\<open>main\<close> and the names come from directory listings, so the
  normalisation \<^verbatim>\<open>Join\<close> would apply has nothing to remove apart from a doubled
  separator below the root directory, which neither \<^verbatim>\<open>Ext\<close> nor
  \<^verbatim>\<open>Base\<close> can see.
\<close>

definition Join :: "string \<Rightarrow> string \<Rightarrow> string" where
  "Join dir name =
     (if dir = [] then name else if name = [] then dir else dir @ ''/'' @ name)"

text \<open>
  \<^verbatim>\<open>filepath.Ext\<close>: scanning from the end and stopping at a separator, the suffix
  that starts at the last dot of the last element; empty when there is no dot.
\<close>

definition Ext :: "string \<Rightarrow> string" where
  "Ext path =
     (let r = rev path;
          tail = takeWhile (\<lambda>c. c \<noteq> CHR ''/'' \<and> c \<noteq> CHR ''.'') r
      in case dropWhile (\<lambda>c. c \<noteq> CHR ''/'' \<and> c \<noteq> CHR ''.'') r of
           [] \<Rightarrow> []
         | c # _ \<Rightarrow> if c = CHR ''.'' then c # rev tail else [])"

text \<open>
  \<^verbatim>\<open>filepath.Base\<close>: the last element of the path, trailing separators removed
  first; \<^verbatim>\<open>.\<close> for the empty path and a single separator for a path of
  separators only.
\<close>

definition Base :: "string \<Rightarrow> string" where
  "Base path =
     (if path = [] then ''.''
      else let stripped = dropWhile (\<lambda>c. c = CHR ''/'') (rev path);
               elem = rev (takeWhile (\<lambda>c. c \<noteq> CHR ''/'') stripped)
           in if elem = [] then ''/'' else elem)"


subsection \<open>The file system (\<^verbatim>\<open>io/ioutil\<close>, \<^verbatim>\<open>os\<close>)\<close>

text \<open>
  The object found at a path: a regular file, on the volume whose number it carries; a
  directory with its entries in the order \<^verbatim>\<open>ioutil.ReadDir\<close> lists them; or a
  directory the process may neither list nor change. The functions below receive, next
  to each path, the object at that path. The source tree and the target tree are two
  separate trees.
\<close>

datatype node = File nat | Dir "(string \<times> node) list" | Denied

fun IsDir :: "node \<Rightarrow> bool" where
  "IsDir (File dev) = False"
| "IsDir (Dir entries) = True"
| "IsDir Denied = True"

fun ReadDir :: "node \<Rightarrow> error + (string \<times> node) list" where
  "ReadDir (Dir entries) = Inr entries"
| "ReadDir (File dev) = Inl ENOTDIR"
| "ReadDir Denied = Inl EACCES"

text \<open>
  \<^verbatim>\<open>os.Mkdir\<close> of a new, empty directory \<open>name\<close> in a parent directory: it fails
  when the name is taken.
\<close>

fun Mkdir :: "string \<Rightarrow> node \<Rightarrow> error + node" where
  "Mkdir name (Dir entries) =
     (if name \<in> set (map fst entries) then Inl EEXIST
      else Inr (Dir (insort_key fst (name, Dir []) entries)))"
| "Mkdir name (File dev) = Inl ENOTDIR"
| "Mkdir name Denied = Inl EACCES"

text \<open>
  \<^verbatim>\<open>os.Link\<close> of a source file under \<open>name\<close> in a directory of the volume
  \<open>vol\<close>: it fails when the name is taken and when the file lies on another volume.
\<close>

fun Link :: "nat \<Rightarrow> node \<Rightarrow> string \<Rightarrow> node \<Rightarrow> error + node" where
  "Link vol (File dev) name (Dir entries) =
     (if name \<in> set (map fst entries) then Inl EEXIST
      else if dev \<noteq> vol then Inl EXDEV
      else Inr (Dir (insort_key fst (name, File dev) entries)))"
| "Link vol (File dev) name (File dev') = Inl ENOTDIR"
| "Link vol (File dev) name Denied = Inl EACCES"
| "Link vol (Dir entries) name d = Inl EPERM"
| "Link vol Denied name d = Inl EPERM"

text \<open>The directory \<open>name\<close> of a parent directory, replaced by its new state.\<close>

fun setChild :: "string \<Rightarrow> node \<Rightarrow> node \<Rightarrow> node" where
  "setChild name d (Dir entries) =
     Dir (map (\<lambda>(n, x). if n = name then (n, d) else (n, x)) entries)"
| "setChild name d (File dev) = File dev"
| "setChild name d Denied = Denied"


subsection \<open>The fingerprint encoder (\<^verbatim>\<open>encoding/gob\<close>)\<close>

text \<open>
  Modelled from the spec: the fingerprint is "a deterministic, order-preserving encoding
  of contents (e.g., a sequence of length-prefixed strings)", which the program obtains
  from \<^verbatim>\<open>gob.NewEncoder(&buf).Encode(album.Contents)\<close>; the encoder itself is not
  among the sources. The definitions follow the wire format that the documentation of
  \<^verbatim>\<open>encoding/gob\<close> gives for a value of type \<^verbatim>\<open>[]string\<close> sent by a fresh
  encoder: the message that defines the slice type, then the message of the value (its
  length, the type id, a zero byte, the number of strings, and each string as its length
  and its bytes). An unsigned integer below 128 is one byte; a larger one is its
  big-endian bytes without leading zeros, after one byte that holds their number,
  negated. The encoder refuses a message of \<open>tooBig\<close> bytes or more, which is
  \<^verbatim>\<open>(1 << 30) << (^uint(0) >> 62)\<close>, that is \<open>2 ^ 33\<close> where \<^verbatim>\<open>uint\<close> has 64
  bits. Lengths are below \<open>2 ^ 63\<close> in Go; the encoding of larger numbers is not used.
\<close>

fun bigEndian :: "nat \<Rightarrow> bytes" where
  "bigEndian n = (if n = 0 then [] else bigEndian (n div 256) @ [char_of (n mod 256)])"

declare bigEndian.simps [simp del]

definition encodeUint :: "nat \<Rightarrow> bytes" where
  "encodeUint x =
     (if x \<le> 127 then [char_of x]
      else let bs = bigEndian x in char_of (256 - length bs) # bs)"

definition tooBig :: nat where
  "tooBig = 2 ^ 33"

definition typeDefinition :: bytes where
  "typeDefinition =
     [CHR 0x0C, CHR 0xFF, CHR 0x81, CHR 0x02, CHR 0x01, CHR 0x02, CHR 0xFF, CHR 0x82,
      CHR 0x00, CHR 0x01, CHR 0x0C, CHR 0x00, CHR 0x00]"

definition encodeStrings :: "string list \<Rightarrow> bytes" where
  "encodeStrings xs =
     encodeUint (length xs) @ concat (map (\<lambda>s. encodeUint (length s) @ s) xs)"

definition gobEncode :: "string list \<Rightarrow> error + bytes" where
  "gobEncode xs =
     (let message = [CHR 0xFF, CHR 0x82, CHR 0x00] @ encodeStrings xs
      in if length message \<ge> tooBig then Inl ErrMessageTooBig
         else Inr (typeDefinition @ encodeUint (length message) @ message))"


subsection \<open>The registry store (\<^verbatim>\<open>bbolt\<close>)\<close>

text \<open>
  The bucket \<^verbatim>\<open>albums\<close> of the store file: a finite map from keys to values.
  \<^verbatim>\<open>init\<close> creates the bucket together with the file, so it exists whenever the
  functions below run. \<^verbatim>\<open>Bucket.Put\<close> of the library refuses an empty key
  (\<^verbatim>\<open>ErrKeyRequired\<close>), a key of more than \<^verbatim>\<open>MaxKeySize = 32768\<close> bytes
  (\<^verbatim>\<open>ErrKeyTooLarge\<close>) and a value of more than
  \<^verbatim>\<open>MaxValueSize = (1 << 31) - 2\<close> bytes (\<^verbatim>\<open>ErrValueTooLarge\<close>); otherwise it
  stores the value under the key, in place of the value the key had, if any.
  \<^verbatim>\<open>DB.Update\<close> returns the error of its function and then changes nothing.
  Failures of the disk below the library are not part of this model.
\<close>

type_synonym store = "bytes \<rightharpoonup> bytes"

definition MaxKeySize :: nat where
  "MaxKeySize = 32768"

definition MaxValueSize :: nat where
  "MaxValueSize = 2 ^ 31 - 2"

definition Get :: "store \<Rightarrow> bytes \<Rightarrow> bytes option" where
  "Get s key = s key"

definition Put :: "bytes \<Rightarrow> bytes \<Rightarrow> store \<Rightarrow> error + store" where
  "Put key val s =
     (if length key = 0 then Inl ErrKeyRequired
      else if length key > MaxKeySize then Inl ErrKeyTooLarge
      else if length val > MaxValueSize then Inl ErrValueTooLarge
      else Inr (s(key \<mapsto> val)))"


subsection \<open>Albums\<close>

record Album =
  DirName :: string
  Contents :: "string list"

type_synonym encoder = "string list \<Rightarrow> error + bytes"

text \<open>
  \<^verbatim>\<open>isAlbum\<close>: the loop over the listing is \<open>isAlbum_loop\<close>. A directory that
  cannot be read is logged and is not an album.
\<close>

function isAlbum :: "string \<Rightarrow> node \<Rightarrow> bool"
  and isAlbum_loop :: "string \<Rightarrow> (string \<times> node) list \<Rightarrow> bool" where
  "isAlbum dirPath d =
     (case ReadDir d of
        Inl err \<Rightarrow> False
      | Inr contents \<Rightarrow> isAlbum_loop dirPath contents)"
| "isAlbum_loop dirPath [] = False"
| "isAlbum_loop dirPath ((name, file) # rest) =
     (let path = Join dirPath name
      in if IsDir file then isAlbum path file
         else if Ext path = ''.flac'' then True
         else isAlbum_loop dirPath rest)"
  by pat_completeness auto
termination
  by (relation "measure (\<lambda>x. case x of
        Inl (p, d) \<Rightarrow> 2 * size d + 1
      | Inr (p, es) \<Rightarrow> 2 * size_list (size_prod (\<lambda>_. 0) size) es)")
     (auto elim!: ReadDir.elims)

text \<open>\<^verbatim>\<open>newAlbum\<close>: the error of \<^verbatim>\<open>ReadDir\<close> is dropped.\<close>

definition newAlbum :: "string \<Rightarrow> node \<Rightarrow> Album" where
  "newAlbum path d =
     (let contents = (case ReadDir d of Inl err \<Rightarrow> [] | Inr fs \<Rightarrow> fs)
      in \<lparr>DirName = Base path, Contents = map fst contents\<rparr>)"

text \<open>
  \<^verbatim>\<open>inDb\<close> and \<^verbatim>\<open>addToDb\<close>, for the encoder \<open>enc\<close> (the program's is
  \<open>gobEncode\<close>). \<^verbatim>\<open>inDb\<close> ends the process when the encoder fails;
  \<^verbatim>\<open>addToDb\<close> returns the error of the encoder or of the update, which leaves the
  store as it was.
\<close>

definition inDb :: "encoder \<Rightarrow> Album \<Rightarrow> store \<Rightarrow> (bool, store) res" where
  "inDb enc album s =
     (case enc (Contents album) of
        Inl err \<Rightarrow> Exited s
      | Inr buf \<Rightarrow> Returned (Get s buf \<noteq> None) s)"

definition addToDb :: "encoder \<Rightarrow> Album \<Rightarrow> store \<Rightarrow> (error option, store) res" where
  "addToDb enc album s =
     (case enc (Contents album) of
        Inl err \<Rightarrow> Returned (Some err) s
      | Inr buf \<Rightarrow>
          (case Put buf (DirName album) s of
             Inl err \<Rightarrow> Returned (Some err) s
           | Inr s' \<Rightarrow> Returned None s'))"


subsection \<open>Replication\<close>

text \<open>
  \<^verbatim>\<open>linkAlbum\<close>, into the directory \<open>tgt\<close> found at \<open>targetPath\<close>, on the
  volume \<open>vol\<close>. The new directory starts empty; \<open>linkAlbum_loop\<close> fills it. The
  result of the recursive call is not looked at, and the error of \<^verbatim>\<open>ReadDir\<close> is
  dropped.
\<close>

function linkAlbum :: "nat \<Rightarrow> string \<Rightarrow> node \<Rightarrow> string \<Rightarrow> node \<Rightarrow> (unit, node) res"
  and linkAlbum_loop ::
    "nat \<Rightarrow> string \<Rightarrow> (string \<times> node) list \<Rightarrow> string \<Rightarrow> node \<Rightarrow> (unit, node) res" where
  "linkAlbum vol sourcePath src targetPath tgt =
     (let sourceDirName = Base sourcePath;
          targetDirPath = Join targetPath sourceDirName
      in case Mkdir sourceDirName tgt of
           Inl err \<Rightarrow> Exited tgt
         | Inr tgt' \<Rightarrow>
             (case linkAlbum_loop vol sourcePath
                     (case ReadDir src of Inl err \<Rightarrow> [] | Inr fs \<Rightarrow> fs)
                     targetDirPath (Dir []) of
                Exited d \<Rightarrow> Exited (setChild sourceDirName d tgt')
              | Returned u d \<Rightarrow> Returned () (setChild sourceDirName d tgt')))"
| "linkAlbum_loop vol sourcePath [] targetDirPath d = Returned () d"
| "linkAlbum_loop vol sourcePath ((name, file) # rest) targetDirPath d =
     (if IsDir file then
        (case linkAlbum vol (Join sourcePath name) file targetDirPath d of
           Exited d' \<Rightarrow> Exited d'
         | Returned u d' \<Rightarrow> linkAlbum_loop vol sourcePath rest targetDirPath d')
      else
        (case Link vol file name d of
           Inl err \<Rightarrow> Exited d
         | Inr d' \<Rightarrow> linkAlbum_loop vol sourcePath rest targetDirPath d'))"
  by pat_completeness auto
termination
  by (relation "measure (\<lambda>x. case x of
        Inl (v, p, src, q, t) \<Rightarrow> 2 * size src + 1
      | Inr (v, p, es, q, t) \<Rightarrow> 2 * size_list (size_prod (\<lambda>_. 0) size) es)")
     (auto split: sum.splits elim!: ReadDir.elims)


subsection \<open>The two scans\<close>

text \<open>
  What the two scans work on: the source tree, the target tree and its volume, the
  bucket of the store file, and whether another process holds the lock of the store
  file (then \<^verbatim>\<open>bolt.Open\<close> gives up after its timeout).
\<close>

record world =
  source :: node
  target :: node
  volume :: nat
  db :: store
  locked :: bool

definition Open :: "world \<Rightarrow> error + store" where
  "Open w = (if locked w then Inl ErrTimeout else Inr (db w))"

text \<open>
  \<^verbatim>\<open>updateAlbumDb\<close> scans the target tree, which \<^verbatim>\<open>main\<close> passes as
  \<open>musicDir\<close>. What \<^verbatim>\<open>addToDb\<close> returns is not looked at.
\<close>

fun updateAlbumDb_loop ::
    "encoder \<Rightarrow> string \<Rightarrow> (string \<times> node) list \<Rightarrow> world \<Rightarrow> (unit, world) res" where
  "updateAlbumDb_loop enc musicDir [] w = Returned () w"
| "updateAlbumDb_loop enc musicDir ((name, file) # rest) w =
     (if \<not> IsDir file then updateAlbumDb_loop enc musicDir rest w
      else
        let contentPath = Join musicDir name
        in if isAlbum contentPath file then
             (let album = newAlbum contentPath file
              in case inDb enc album (db w) of
                   Exited s \<Rightarrow> Exited w
                 | Returned found s \<Rightarrow>
                     if \<not> found then
                       (case addToDb enc album (db w) of
                          Exited s' \<Rightarrow> Exited (w\<lparr>db := s'\<rparr>)
                        | Returned err s' \<Rightarrow>
                            updateAlbumDb_loop enc musicDir rest (w\<lparr>db := s'\<rparr>))
                     else updateAlbumDb_loop enc musicDir rest w)
           else updateAlbumDb_loop enc musicDir rest w)"

definition updateAlbumDb :: "encoder \<Rightarrow> string \<Rightarrow> world \<Rightarrow> (unit, world) res" where
  "updateAlbumDb enc musicDir w =
     (case ReadDir (target w) of
        Inl err \<Rightarrow> Exited w
      | Inr musicFiles \<Rightarrow>
          (case Open w of
             Inl err \<Rightarrow> Exited w
           | Inr s \<Rightarrow> updateAlbumDb_loop enc musicDir musicFiles w))"

text \<open>
  \<^verbatim>\<open>linkNewAlbums\<close> scans the source tree. The error of \<^verbatim>\<open>ReadDir\<close> is
  overwritten by the result of \<^verbatim>\<open>bolt.Open\<close> before anything reads it; what
  \<^verbatim>\<open>linkAlbum\<close> and \<^verbatim>\<open>addToDb\<close> return is not looked at. The three counters are
  returned in place of the two log lines that print them.
\<close>

record summary =
  regFiles :: nat
  newAlbums :: nat
  oldAlbums :: nat

fun linkNewAlbums_loop ::
    "encoder \<Rightarrow> string \<Rightarrow> string \<Rightarrow> (string \<times> node) list \<Rightarrow> summary \<Rightarrow> world
       \<Rightarrow> (summary, world) res" where
  "linkNewAlbums_loop enc sourceDir targetDir [] c w = Returned c w"
| "linkNewAlbums_loop enc sourceDir targetDir ((name, file) # rest) c w =
     (if \<not> IsDir file then
        linkNewAlbums_loop enc sourceDir targetDir rest (c\<lparr>regFiles := regFiles c + 1\<rparr>) w
      else
        let contentPath = Join sourceDir name
        in if isAlbum contentPath file then
             (let album = newAlbum contentPath file
              in case inDb enc album (db w) of
                   Exited s \<Rightarrow> Exited w
                 | Returned found s \<Rightarrow>
                     if \<not> found then
                       (case linkAlbum (volume w) contentPath file targetDir (target w) of
                          Exited t \<Rightarrow> Exited (w\<lparr>target := t\<rparr>)
                        | Returned u t \<Rightarrow>
                            (case addToDb enc album (db w) of
                               Exited s' \<Rightarrow> Exited (w\<lparr>target := t, db := s'\<rparr>)
                             | Returned err s' \<Rightarrow>
                                 linkNewAlbums_loop enc sourceDir targetDir rest
                                   (c\<lparr>newAlbums := newAlbums c + 1\<rparr>)
                                   (w\<lparr>target := t, db := s'\<rparr>)))
                     else
                       linkNewAlbums_loop enc sourceDir targetDir rest
                         (c\<lparr>oldAlbums := oldAlbums c + 1\<rparr>) w)
           else linkNewAlbums_loop enc sourceDir targetDir rest c w)"

definition linkNewAlbums ::
    "encoder \<Rightarrow> string \<Rightarrow> string \<Rightarrow> world \<Rightarrow> (summary, world) res" where
  "linkNewAlbums enc sourceDir targetDir w =
     (let sourceFiles = (case ReadDir (source w) of Inl err \<Rightarrow> [] | Inr fs \<Rightarrow> fs)
      in case Open w of
           Inl err \<Rightarrow> Exited w
         | Inr s \<Rightarrow>
             linkNewAlbums_loop enc sourceDir targetDir sourceFiles
               \<lparr>regFiles = 0, newAlbums = 0, oldAlbums = 0\<rparr> w)"


subsection \<open>The state a call leaves, and the stores of later runs\<close>

fun state_of :: "('a, 's) res \<Rightarrow> 's" where
  "state_of (Returned a s) = s"
| "state_of (Exited s) = s"

text \<open>
  \<open>later enc s s'\<close>: the bucket holds \<open>s'\<close> after any number of further scans, each
  with a handle of its own, that found it holding \<open>s\<close>.
\<close>

inductive later :: "encoder \<Rightarrow> store \<Rightarrow> store \<Rightarrow> bool" for enc :: encoder where
  same: "later enc s s"
| backfill: "later enc s (db w) \<Longrightarrow> later enc s (db (state_of (updateAlbumDb enc musicDir w)))"
| sync: "later enc s (db w) \<Longrightarrow> later enc s (db (state_of (linkNewAlbums enc sourceDir targetDir w)))"


subsection \<open>Looking into a directory\<close>

text \<open>The object a directory holds under a name, if any.\<close>

fun child :: "string \<Rightarrow> node \<Rightarrow> node option" where
  "child name (Dir entries) = map_of entries name"
| "child name (File dev) = None"
| "child name Denied = None"


subsection \<open>An album with a listing longer than the key limit of the store\<close>

text \<open>
  A source tree with one album \<^verbatim>\<open>A\<close> of \<open>n\<close> files, named \<^verbatim>\<open>a.flac\<close>,
  \<^verbatim>\<open>aa.flac\<close>, \<^verbatim>\<open>aaa.flac\<close> and so on (the listing is in the order of the names),
  all on the volume of the empty target tree; the store is empty and not locked.
\<close>

definition longNames :: "nat \<Rightarrow> string list" where
  "longNames n = map (\<lambda>i. replicate (Suc i) CHR ''a'' @ ''.flac'') [0..<n]"

definition bigAlbum :: "nat \<Rightarrow> node" where
  "bigAlbum n = Dir (map (\<lambda>name. (name, File 0)) (longNames n))"

definition bigAlbumWorld :: "nat \<Rightarrow> world" where
  "bigAlbumWorld n =
     \<lparr>source = Dir [(''A'', bigAlbum n)], target = Dir [], volume = 0, db = Map.empty,
      locked = False\<rparr>"


subsection \<open>A step of the replication that fails\<close>

text \<open>
  \<open>failing vol sourcePath src targetPath tgt\<close>: in the course of
  \<^verbatim>\<open>linkAlbum(sourcePath, targetPath)\<close> some call of \<^verbatim>\<open>os.Mkdir\<close> or of
  \<^verbatim>\<open>os.Link\<close> fails, for the album directory itself or anywhere below it, in the state
  the steps before it have left. \<open>failing_loop\<close> is the same for the loop over a
  listing.
\<close>

inductive failing :: "nat \<Rightarrow> string \<Rightarrow> node \<Rightarrow> string \<Rightarrow> node \<Rightarrow> bool"
  and failing_loop ::
    "nat \<Rightarrow> string \<Rightarrow> (string \<times> node) list \<Rightarrow> string \<Rightarrow> node \<Rightarrow> bool"
  where
  mkdir_fails:
    "Mkdir (Base sourcePath) tgt = Inl err \<Longrightarrow> failing vol sourcePath src targetPath tgt"
| fails_below:
    "Mkdir (Base sourcePath) tgt = Inr tgt' \<Longrightarrow>
     failing_loop vol sourcePath (case ReadDir src of Inl err \<Rightarrow> [] | Inr fs \<Rightarrow> fs)
       (Join targetPath (Base sourcePath)) (Dir []) \<Longrightarrow>
     failing vol sourcePath src targetPath tgt"
| link_fails:
    "\<not> IsDir file \<Longrightarrow> Link vol file name d = Inl err \<Longrightarrow>
     failing_loop vol sourcePath ((name, file) # rest) targetDirPath d"
| fails_nested:
    "IsDir file \<Longrightarrow> failing vol (Join sourcePath name) file targetDirPath d \<Longrightarrow>
     failing_loop vol sourcePath ((name, file) # rest) targetDirPath d"
| fails_after_link:
    "\<not> IsDir file \<Longrightarrow> Link vol file name d = Inr d' \<Longrightarrow>
     failing_loop vol sourcePath rest targetDirPath d' \<Longrightarrow>
     failing_loop vol sourcePath ((name, file) # rest) targetDirPath d"
| fails_after_nested:
    "IsDir file \<Longrightarrow>
     linkAlbum vol (Join sourcePath name) file targetDirPath d = Returned u d' \<Longrightarrow>
     failing_loop vol sourcePath rest targetDirPath d' \<Longrightarrow>
     failing_loop vol sourcePath ((name, file) # rest) targetDirPath d"

text \<open>Every regular file of a tree lies on the volume \<open>vol\<close>.\<close>

fun onVolume :: "nat \<Rightarrow> node \<Rightarrow> bool"
  and onVolume_list :: "nat \<Rightarrow> (string \<times> node) list \<Rightarrow> bool" where
  "onVolume vol (File dev) = (dev = vol)"
| "onVolume vol (Dir entries) = onVolume_list vol entries"
| "onVolume vol Denied = True"
| "onVolume_list vol [] = True"
| "onVolume_list vol ((name, file) # rest) = (onVolume vol file \<and> onVolume_list vol rest)"


section \<open>Album detection\<close>

lemma isAlbum_Dir: "isAlbum p (Dir es) = isAlbum_loop p es"
  by simp

lemma isAlbum_loop_find:
  "isAlbum_loop p es =
     (case find (\<lambda>(n, f). IsDir f \<or> Ext (Join p n) = ''.flac'') es of
        None \<Rightarrow> False
      | Some (n, f) \<Rightarrow> if IsDir f then isAlbum (Join p n) f else True)"
proof (induction es)
  case Nil
  show ?case by simp
next
  case (Cons e es)
  obtain n f where e: "e = (n, f)" by (cases e)
  show ?case
    unfolding e using Cons.IH by (simp add: Let_def del: isAlbum.simps)
qed

lemma find_skip:
  "\<forall>x \<in> set pre. \<not> P x \<Longrightarrow> find P (pre @ ys) = find P ys"
  by (induction pre) auto

lemma find_none: "\<forall>x \<in> set xs. \<not> P x \<Longrightarrow> find P xs = None"
  by (induction xs) auto

text \<open>
  C1. For a directory that can be listed, the first entry of the listing that is a
  directory or a file with the extension \<^verbatim>\<open>.flac\<close> decides: a directory is
  descended into and the answer found there is the answer (whatever follows it in the
  listing); a \<^verbatim>\<open>.flac\<close> file gives true; with neither among the entries the answer
  is false. So a listing of files without the extension gives false, and a
  \<^verbatim>\<open>.flac\<close> file that no directory precedes gives true.
\<close>

theorem isAlbum_listing_order:
  "(isAlbum p (Dir es) =
      (case find (\<lambda>(n, f). IsDir f \<or> Ext (Join p n) = ''.flac'') es of
         None \<Rightarrow> False
       | Some (n, f) \<Rightarrow> if IsDir f then isAlbum (Join p n) f else True))
   \<and> ((\<forall>(m, f) \<in> set pre. \<not> IsDir f \<and> Ext (Join p m) \<noteq> ''.flac'') \<and> IsDir sub
        \<longrightarrow> isAlbum p (Dir (pre @ (n, sub) # post)) = isAlbum (Join p n) sub)
   \<and> ((\<forall>(m, f) \<in> set es. \<not> IsDir f \<and> Ext (Join p m) \<noteq> ''.flac'')
        \<longrightarrow> \<not> isAlbum p (Dir es))
   \<and> ((\<forall>(m, f) \<in> set pre'. \<not> IsDir f) \<and> \<not> IsDir g \<and> Ext (Join p k) = ''.flac''
        \<longrightarrow> isAlbum p (Dir (pre' @ (k, g) # post')))"
proof (intro conjI impI)
  show "isAlbum p (Dir es) =
      (case find (\<lambda>(n, f). IsDir f \<or> Ext (Join p n) = ''.flac'') es of
         None \<Rightarrow> False
       | Some (n, f) \<Rightarrow> if IsDir f then isAlbum (Join p n) f else True)"
    unfolding isAlbum_Dir by (rule isAlbum_loop_find)
next
  assume h: "(\<forall>(m, f) \<in> set pre. \<not> IsDir f \<and> Ext (Join p m) \<noteq> ''.flac'') \<and> IsDir sub"
  then have "\<forall>x \<in> set pre. \<not> (case x of (n, f) \<Rightarrow> IsDir f \<or> Ext (Join p n) = ''.flac'')"
    by auto
  then have "find (\<lambda>(n, f). IsDir f \<or> Ext (Join p n) = ''.flac'') (pre @ (n, sub) # post)
      = Some (n, sub)"
    using h by (simp add: find_skip)
  then show "isAlbum p (Dir (pre @ (n, sub) # post)) = isAlbum (Join p n) sub"
    unfolding isAlbum_Dir isAlbum_loop_find using h by simp
next
  assume "\<forall>(m, f) \<in> set es. \<not> IsDir f \<and> Ext (Join p m) \<noteq> ''.flac''"
  then have "\<forall>x \<in> set es. \<not> (case x of (n, f) \<Rightarrow> IsDir f \<or> Ext (Join p n) = ''.flac'')"
    by auto
  then have "find (\<lambda>(n, f). IsDir f \<or> Ext (Join p n) = ''.flac'') es = None"
    by (rule find_none)
  then show "\<not> isAlbum p (Dir es)"
    unfolding isAlbum_Dir isAlbum_loop_find by simp
next
  assume h: "(\<forall>(m, f) \<in> set pre'. \<not> IsDir f) \<and> \<not> IsDir g \<and> Ext (Join p k) = ''.flac''"
  show "isAlbum p (Dir (pre' @ (k, g) # post'))"
    unfolding isAlbum_Dir using h
    by (induction pre') (auto simp: Let_def simp del: isAlbum.simps)
qed

theorem isAlbum_listing_order_witness:
  "\<not> IsDir (File 0) \<and> Ext (Join ''/src/A'' ''cover.jpg'') \<noteq> ''.flac''
   \<and> Ext (Join ''/src/A'' ''notes.txt'') \<noteq> ''.flac''
   \<and> IsDir (Dir [(''t.flac'', File 0)])
   \<and> isAlbum ''/src/A''
        (Dir ([(''cover.jpg'', File 0)] @ (''CD1'', Dir [(''t.flac'', File 0)]) # [(''x.flac'', File 0)]))
       = isAlbum (Join ''/src/A'' ''CD1'') (Dir [(''t.flac'', File 0)])
   \<and> \<not> isAlbum ''/src/A'' (Dir [(''cover.jpg'', File 0), (''notes.txt'', File 0)])
   \<and> Ext (Join ''/src/A'' ''x.flac'') = ''.flac''
   \<and> isAlbum ''/src/A'' (Dir ([(''cover.jpg'', File 0)] @ (''x.flac'', File 0) # [(''CD1'', Dir [])]))"
  using isAlbum_listing_order [of "''/src/A''" "[(''cover.jpg'', File 0), (''notes.txt'', File 0)]"
      "[(''cover.jpg'', File 0)]" "Dir [(''t.flac'', File 0)]" "''CD1''" "[(''x.flac'', File 0)]"
      "[(''cover.jpg'', File 0)]" "File 0" "''x.flac''" "[(''CD1'', Dir [])]"]
  by (simp add: Join_def Ext_def)

section \<open>The registry\<close>

lemma Put_keeps: "Put key val s = Inr s' \<Longrightarrow> k \<in> dom s \<Longrightarrow> k \<in> dom s'"
  by (auto simp: Put_def split: if_splits)

lemma addToDb_keeps: "k \<in> dom s \<Longrightarrow> k \<in> dom (state_of (addToDb enc album s))"
  by (auto simp: addToDb_def dest: Put_keeps split: sum.splits)

lemma addToDb_Returned: "\<exists>err s'. addToDb enc album s = Returned err s'"
  by (simp add: addToDb_def split: sum.splits)

lemma inDb_state: "state_of (inDb enc album s) = s"
  by (simp add: inDb_def split: sum.splits)

lemma addToDb_keeps':
  "addToDb enc album s = r \<Longrightarrow> k \<in> dom s \<Longrightarrow> k \<in> dom (state_of r)"
  using addToDb_keeps by blast

lemma updateAlbumDb_loop_keeps:
  "k \<in> dom (db w) \<Longrightarrow> k \<in> dom (db (state_of (updateAlbumDb_loop enc musicDir files w)))"
proof (induction files arbitrary: w)
  case Nil
  then show ?case by simp
next
  case (Cons e files)
  obtain nm f where e: "e = (nm, f)" by (cases e)
  show ?case
    unfolding e using Cons.prems
    by (auto simp: Let_def simp del: isAlbum.simps split: res.splits
          intro!: Cons.IH dest: addToDb_keeps')
qed

lemma updateAlbumDb_keeps:
  "k \<in> dom (db w) \<Longrightarrow> k \<in> dom (db (state_of (updateAlbumDb enc musicDir w)))"
  by (auto simp: updateAlbumDb_def updateAlbumDb_loop_keeps split: sum.splits)

lemma linkNewAlbums_loop_keeps:
  "k \<in> dom (db w) \<Longrightarrow>
     k \<in> dom (db (state_of (linkNewAlbums_loop enc sourceDir targetDir files c w)))"
proof (induction files arbitrary: c w)
  case Nil
  then show ?case by simp
next
  case (Cons e files)
  obtain nm f where e: "e = (nm, f)" by (cases e)
  show ?case
    unfolding e using Cons.prems
    by (auto simp: Let_def simp del: isAlbum.simps linkAlbum.simps split: res.splits
          intro!: Cons.IH dest: addToDb_keeps')
qed

lemma linkNewAlbums_keeps:
  "k \<in> dom (db w) \<Longrightarrow> k \<in> dom (db (state_of (linkNewAlbums enc sourceDir targetDir w)))"
  by (auto simp: linkNewAlbums_def Let_def linkNewAlbums_loop_keeps split: sum.splits)

lemma later_keeps: "later enc s s' \<Longrightarrow> k \<in> dom s \<Longrightarrow> k \<in> dom s'"
proof (induction rule: later.induct)
  case (same s)
  then show ?case .
next
  case (backfill s w musicDir)
  then show ?case by (simp add: updateAlbumDb_keeps)
next
  case (sync s w sourceDir targetDir)
  then show ?case by (simp add: linkNewAlbums_keeps)
qed

lemma addToDb_stores:
  "addToDb enc album s = Returned None s' \<Longrightarrow>
     \<exists>key. enc (Contents album) = Inr key \<and> s' = s(key \<mapsto> DirName album)"
  by (auto simp: addToDb_def Put_def split: sum.splits if_splits)

text \<open>
  C3. After an insert that reports no error, the album is found in the store: at once,
  under the handle that inserted it, and in the store as any later scans, each with its
  own handle, leave it.
\<close>

theorem insert_then_contains:
  assumes "addToDb enc album s = Returned None s'"
  shows "inDb enc album s' = Returned True s'
         \<and> (later enc s' s'' \<longrightarrow> inDb enc album s'' = Returned True s'')"
proof -
  from addToDb_stores [OF assms] obtain key
    where key: "enc (Contents album) = Inr key" and s': "s' = s(key \<mapsto> DirName album)"
    by blast
  have "key \<in> dom s'" by (simp add: s')
  then have "later enc s' s'' \<Longrightarrow> key \<in> dom s''"
    by (rule later_keeps [rotated])
  then show ?thesis
    using key \<open>key \<in> dom s'\<close> by (auto simp: inDb_def Get_def)
qed


theorem insert_then_contains_witness:
  "addToDb gobEncode \<lparr>DirName = ''A'', Contents = [''x.flac'']\<rparr> Map.empty
     = Returned None
         (state_of (addToDb gobEncode \<lparr>DirName = ''A'', Contents = [''x.flac'']\<rparr> Map.empty))
   \<and> inDb gobEncode \<lparr>DirName = ''A'', Contents = [''x.flac'']\<rparr>
         (state_of (addToDb gobEncode \<lparr>DirName = ''A'', Contents = [''x.flac'']\<rparr> Map.empty))
     = Returned True
         (state_of (addToDb gobEncode \<lparr>DirName = ''A'', Contents = [''x.flac'']\<rparr> Map.empty))
   \<and> inDb gobEncode \<lparr>DirName = ''A'', Contents = [''x.flac'']\<rparr>
         (db (state_of (updateAlbumDb gobEncode ''/lib''
            \<lparr>source = Dir [], target = Dir [(''B'', Dir [(''y.flac'', File 0)])], volume = 0,
              db = state_of (addToDb gobEncode \<lparr>DirName = ''A'', Contents = [''x.flac'']\<rparr> Map.empty),
              locked = False\<rparr>)))
     = Returned True
         (db (state_of (updateAlbumDb gobEncode ''/lib''
            \<lparr>source = Dir [], target = Dir [(''B'', Dir [(''y.flac'', File 0)])], volume = 0,
              db = state_of (addToDb gobEncode \<lparr>DirName = ''A'', Contents = [''x.flac'']\<rparr> Map.empty),
              locked = False\<rparr>)))"
proof -
  let ?a = "\<lparr>DirName = ''A'', Contents = [''x.flac'']\<rparr>"
  let ?s = "state_of (addToDb gobEncode ?a Map.empty)"
  let ?w = "\<lparr>source = Dir [], target = Dir [(''B'', Dir [(''y.flac'', File 0)])], volume = 0,
             db = ?s, locked = False\<rparr>"
  have add: "addToDb gobEncode ?a Map.empty = Returned None ?s"
    by (simp add: addToDb_def gobEncode_def encodeStrings_def encodeUint_def tooBig_def
        Put_def MaxKeySize_def MaxValueSize_def typeDefinition_def)
  have "later gobEncode ?s (db ?w)"
    by (simp add: later.same)
  then have lat: "later gobEncode ?s (db (state_of (updateAlbumDb gobEncode ''/lib'' ?w)))"
    by (rule later.backfill)
  show ?thesis
    using add lat insert_then_contains [OF add,
        of "db (state_of (updateAlbumDb gobEncode ''/lib'' ?w))"]
    by simp
qed

text \<open>
  C8. The fingerprint is the key of the store, and a key occurs once: inserting an
  album whose fingerprint is already a key (with the size of the key and of the name
  within the limits of the store, as for every key the store has accepted before)
  reports no error, replaces the name stored under that key and leaves the set of keys
  as it was.
\<close>

theorem duplicate_insert_overwrites:
  assumes "enc (Contents album) = Inr key"
    and "Get s key = Some old"
    and "key \<noteq> [] \<and> length key \<le> MaxKeySize"
    and "length (DirName album) \<le> MaxValueSize"
  shows "addToDb enc album s = Returned None (s(key \<mapsto> DirName album))
         \<and> dom (s(key \<mapsto> DirName album)) = dom s
         \<and> Get (s(key \<mapsto> DirName album)) key = Some (DirName album)"
  using assms by (auto simp: addToDb_def Put_def Get_def)

lemma Put_valid_key:
  "Put key val s = Inr s' \<Longrightarrow> key \<noteq> [] \<and> length key \<le> MaxKeySize"
  by (auto simp: Put_def split: if_splits)

theorem duplicate_insert_overwrites_witness:
  "addToDb gobEncode \<lparr>DirName = ''B'', Contents = [''x.flac'']\<rparr>
       (state_of (addToDb gobEncode \<lparr>DirName = ''A'', Contents = [''x.flac'']\<rparr> Map.empty))
     = Returned None
         ((state_of (addToDb gobEncode \<lparr>DirName = ''A'', Contents = [''x.flac'']\<rparr> Map.empty))
            (projr (gobEncode [''x.flac'']) \<mapsto> ''B''))
   \<and> dom ((state_of (addToDb gobEncode \<lparr>DirName = ''A'', Contents = [''x.flac'']\<rparr> Map.empty))
            (projr (gobEncode [''x.flac'']) \<mapsto> ''B''))
     = dom (state_of (addToDb gobEncode \<lparr>DirName = ''A'', Contents = [''x.flac'']\<rparr> Map.empty))
   \<and> Get (state_of (addToDb gobEncode \<lparr>DirName = ''A'', Contents = [''x.flac'']\<rparr> Map.empty))
         (projr (gobEncode [''x.flac''])) = Some ''A''"
proof -
  let ?s = "state_of (addToDb gobEncode \<lparr>DirName = ''A'', Contents = [''x.flac'']\<rparr> Map.empty)"
  let ?k = "projr (gobEncode [''x.flac''])"
  have enc: "gobEncode (Contents \<lparr>DirName = ''B'', Contents = [''x.flac'']\<rparr>) = Inr ?k"
    by (simp add: gobEncode_def encodeStrings_def encodeUint_def tooBig_def)
  have old: "Get ?s ?k = Some ''A''"
    by (simp add: addToDb_def gobEncode_def encodeStrings_def encodeUint_def tooBig_def
        Put_def MaxKeySize_def MaxValueSize_def typeDefinition_def Get_def)
  have key: "?k \<noteq> [] \<and> length ?k \<le> MaxKeySize"
    by (simp add: gobEncode_def encodeStrings_def encodeUint_def tooBig_def
        MaxKeySize_def typeDefinition_def)
  have val: "length (DirName \<lparr>DirName = ''B'', Contents = [''x.flac'']\<rparr>) \<le> MaxValueSize"
    by (simp add: MaxValueSize_def)
  show ?thesis
    using duplicate_insert_overwrites
            [of gobEncode "\<lparr>DirName = ''B'', Contents = [''x.flac'']\<rparr>" ?k ?s "''A''"]
          enc old key val
    by simp
qed


section \<open>Describing an album\<close>

text \<open>
  C10. \<^verbatim>\<open>newAlbum\<close> has no failure: it returns an album for every path, named by
  the last element of the path. Where the directory cannot be read the contents are
  empty; so two such albums have the same fingerprint, and once one of them is in the
  store the other is found there.
\<close>

theorem newAlbum_unreadable:
  "DirName (newAlbum path d) = Base path
   \<and> (ReadDir d = Inl err \<longrightarrow> Contents (newAlbum path d) = [])
   \<and> (ReadDir d = Inl err \<and> ReadDir d' = Inl err' \<longrightarrow>
        enc (Contents (newAlbum path d)) = enc (Contents (newAlbum path' d'))
        \<and> (addToDb enc (newAlbum path d) s = Returned None s' \<longrightarrow>
             inDb enc (newAlbum path' d') s' = Returned True s'))"
  by (auto simp: newAlbum_def addToDb_def inDb_def Put_def Get_def split: sum.splits if_splits)

theorem newAlbum_unreadable_witness:
  "DirName (newAlbum ''/src/A'' Denied) = ''A''
   \<and> ReadDir Denied = Inl EACCES \<and> ReadDir (File 0) = Inl ENOTDIR
   \<and> Contents (newAlbum ''/src/A'' Denied) = []
   \<and> gobEncode (Contents (newAlbum ''/src/A'' Denied))
        = gobEncode (Contents (newAlbum ''/src/B'' (File 0)))
   \<and> addToDb gobEncode (newAlbum ''/src/A'' Denied) Map.empty
        = Returned None (state_of (addToDb gobEncode (newAlbum ''/src/A'' Denied) Map.empty))
   \<and> inDb gobEncode (newAlbum ''/src/B'' (File 0))
          (state_of (addToDb gobEncode (newAlbum ''/src/A'' Denied) Map.empty))
        = Returned True (state_of (addToDb gobEncode (newAlbum ''/src/A'' Denied) Map.empty))"
proof -
  have add: "addToDb gobEncode (newAlbum ''/src/A'' Denied) Map.empty
        = Returned None (state_of (addToDb gobEncode (newAlbum ''/src/A'' Denied) Map.empty))"
    by (simp add: newAlbum_def addToDb_def gobEncode_def encodeStrings_def encodeUint_def
        tooBig_def Put_def MaxKeySize_def MaxValueSize_def typeDefinition_def Base_def)
  show ?thesis
    using add newAlbum_unreadable [of "''/src/A''" Denied EACCES "File 0" ENOTDIR gobEncode
        "''/src/B''" Map.empty "state_of (addToDb gobEncode (newAlbum ''/src/A'' Denied) Map.empty)"]
    by (simp add: Base_def newAlbum_def)
qed


section \<open>Directories that cannot be read\<close>

lemma isAlbum_unreadable: "ReadDir d = Inl err \<Longrightarrow> \<not> isAlbum p d"
  by simp

lemma updateAlbumDb_unreadable_root:
  "ReadDir (target w) = Inl err \<Longrightarrow> updateAlbumDb enc musicDir w = Exited w"
  by (simp add: updateAlbumDb_def)

lemma unreadable_entry_skipped:
  "IsDir f \<Longrightarrow> ReadDir f = Inl err \<Longrightarrow>
     updateAlbumDb_loop enc musicDir ((nm, f) # rest) w = updateAlbumDb_loop enc musicDir rest w
     \<and> linkNewAlbums_loop enc sourceDir targetDir ((nm, f) # rest) c w
         = linkNewAlbums_loop enc sourceDir targetDir rest c w"
  by (simp add: Let_def)

text \<open>
  C5. A target root that cannot be read ends \<^verbatim>\<open>updateAlbumDb\<close>, and a directory
  below a root that cannot be read is no album and the scan goes on
  (\<open>updateAlbumDb_unreadable_root\<close>, \<open>unreadable_entry_skipped\<close>). A source root that
  cannot be read does not end \<^verbatim>\<open>linkNewAlbums\<close>: the error is never looked at, the
  listing is empty, and the scan returns with all three counters at zero.
\<close>

theorem unreadable_source_root_not_fatal:
  "ReadDir (source w) = Inl err \<Longrightarrow> \<not> locked w \<Longrightarrow>
     linkNewAlbums enc sourceDir targetDir w
       = Returned \<lparr>regFiles = 0, newAlbums = 0, oldAlbums = 0\<rparr> w"
  by (simp add: linkNewAlbums_def Open_def)

theorem unreadable_source_root_not_fatal_witness:
  "ReadDir Denied = Inl EACCES
   \<and> linkNewAlbums gobEncode ''/downloads'' ''/music''
        \<lparr>source = Denied, target = Dir [], volume = 0, db = Map.empty, locked = False\<rparr>
       = Returned \<lparr>regFiles = 0, newAlbums = 0, oldAlbums = 0\<rparr>
           \<lparr>source = Denied, target = Dir [], volume = 0, db = Map.empty, locked = False\<rparr>
   \<and> updateAlbumDb gobEncode ''/music''
        \<lparr>source = Dir [], target = Denied, volume = 0, db = Map.empty, locked = False\<rparr>
       = Exited \<lparr>source = Dir [], target = Denied, volume = 0, db = Map.empty, locked = False\<rparr>"
  using unreadable_source_root_not_fatal [of
      "\<lparr>source = Denied, target = Dir [], volume = 0, db = Map.empty, locked = False\<rparr>"
      EACCES gobEncode "''/downloads''" "''/music''"]
  by (simp add: updateAlbumDb_def)


section \<open>The scan of the target tree\<close>

lemma addToDb_after_miss:
  assumes "inDb enc album s = Returned False s0"
  shows "\<exists>key. enc (Contents album) = Inr key \<and> s key = None
           \<and> (state_of (addToDb enc album s) = s
                \<or> state_of (addToDb enc album s) = s(key \<mapsto> DirName album))"
proof (cases "enc (Contents album)")
  case (Inl err)
  then show ?thesis using assms by (simp add: inDb_def)
next
  case (Inr key)
  then have "s key = None"
    using assms by (auto simp: inDb_def Get_def)
  then show ?thesis
    using Inr by (simp add: addToDb_def Put_def)
qed

lemma addToDb_res:
  "\<exists>err. addToDb enc album s = Returned err (state_of (addToDb enc album s))"
  by (simp add: addToDb_def split: sum.splits)

lemma inDb_res:
  "inDb enc album s = Exited s \<or> inDb enc album s = Returned True s
     \<or> inDb enc album s = Returned False s"
  by (auto simp: inDb_def split: sum.splits)

lemma updateAlbumDb_loop_cases:
  fixes enc musicDir nm f es w
  defines "a \<equiv> newAlbum (Join musicDir nm) f"
  obtains
    (skip) "updateAlbumDb_loop enc musicDir ((nm, f) # es) w
              = updateAlbumDb_loop enc musicDir es w"
  | (fatal) "IsDir f" "isAlbum (Join musicDir nm) f" "inDb enc a (db w) = Exited (db w)"
      "updateAlbumDb_loop enc musicDir ((nm, f) # es) w = Exited w"
  | (insert) "IsDir f" "isAlbum (Join musicDir nm) f" "inDb enc a (db w) = Returned False (db w)"
      "updateAlbumDb_loop enc musicDir ((nm, f) # es) w
         = updateAlbumDb_loop enc musicDir es (w\<lparr>db := state_of (addToDb enc a (db w))\<rparr>)"
proof (cases "IsDir f \<and> isAlbum (Join musicDir nm) f")
  case False
  then show ?thesis by (intro skip) (auto simp: Let_def simp del: isAlbum.simps)
next
  case True
  from addToDb_res [of enc a "db w"] obtain err s'
    where add: "addToDb enc a (db w) = Returned err s'"
      and s': "state_of (addToDb enc a (db w)) = s'"
    by (cases "addToDb enc a (db w)") auto
  from inDb_res [of enc a "db w"] show ?thesis
  proof (elim disjE)
    assume h: "inDb enc a (db w) = Exited (db w)"
    show ?thesis
      using True h by (intro fatal) (simp_all add: a_def Let_def del: isAlbum.simps)
  next
    assume h: "inDb enc a (db w) = Returned True (db w)"
    show ?thesis
      using True h by (intro skip) (simp add: a_def Let_def del: isAlbum.simps)
  next
    assume h: "inDb enc a (db w) = Returned False (db w)"
    have "updateAlbumDb_loop enc musicDir ((nm, f) # es) w
         = updateAlbumDb_loop enc musicDir es (w\<lparr>db := state_of (addToDb enc a (db w))\<rparr>)"
      using True h add unfolding s' unfolding a_def
      by (simp add: Let_def del: isAlbum.simps)
    then show ?thesis
      using True h by (intro insert) simp_all
  qed
qed

lemma updateAlbumDb_loop_frame:
  "source (state_of (updateAlbumDb_loop enc musicDir es w)) = source w
   \<and> target (state_of (updateAlbumDb_loop enc musicDir es w)) = target w
   \<and> volume (state_of (updateAlbumDb_loop enc musicDir es w)) = volume w
   \<and> locked (state_of (updateAlbumDb_loop enc musicDir es w)) = locked w"
proof (induction es arbitrary: w)
  case Nil
  show ?case by simp
next
  case (Cons e es)
  obtain nm f where e: "e = (nm, f)" by (cases e)
  let ?G = "\<lambda>r. source (state_of r) = source w \<and> target (state_of r) = target w
     \<and> volume (state_of r) = volume w \<and> locked (state_of r) = locked w"
  have "?G (updateAlbumDb_loop enc musicDir ((nm, f) # es) w)"
  proof (cases rule: updateAlbumDb_loop_cases [of enc musicDir nm f es w])
    case skip
    show ?thesis unfolding skip using Cons.IH [of w] by simp
  next
    case fatal
    show ?thesis unfolding fatal(4) by simp
  next
    case insert
    show ?thesis unfolding insert(4)
      using Cons.IH [of "w\<lparr>db := state_of (addToDb enc (newAlbum (Join musicDir nm) f) (db w))\<rparr>"]
      by simp
  qed
  then show ?case unfolding e .
qed

lemma updateAlbumDb_loop_inserts:
  "(db w k = Some v \<longrightarrow> db (state_of (updateAlbumDb_loop enc musicDir es w)) k = Some v)
   \<and> (db w k = None \<and> db (state_of (updateAlbumDb_loop enc musicDir es w)) k = Some v \<longrightarrow>
        (\<exists>(nm, f) \<in> set es. IsDir f \<and> isAlbum (Join musicDir nm) f
            \<and> enc (Contents (newAlbum (Join musicDir nm) f)) = Inr k
            \<and> v = DirName (newAlbum (Join musicDir nm) f)))"
proof (induction es arbitrary: w v)
  case Nil
  show ?case by auto
next
  case (Cons e es)
  obtain nm f where e: "e = (nm, f)" by (cases e)
  let ?a = "newAlbum (Join musicDir nm) f"
  let ?G = "\<lambda>r. (db w k = Some v \<longrightarrow> db (state_of r) k = Some v)
     \<and> (db w k = None \<and> db (state_of r) k = Some v \<longrightarrow>
        (\<exists>(nm, f) \<in> set ((nm, f) # es). IsDir f \<and> isAlbum (Join musicDir nm) f
            \<and> enc (Contents (newAlbum (Join musicDir nm) f)) = Inr k
            \<and> v = DirName (newAlbum (Join musicDir nm) f)))"
  have "?G (updateAlbumDb_loop enc musicDir ((nm, f) # es) w)"
  proof (cases rule: updateAlbumDb_loop_cases [of enc musicDir nm f es w])
    case skip
    show ?thesis unfolding skip using Cons.IH [of w] by auto
  next
    case fatal
    show ?thesis unfolding fatal(4) by auto
  next
    case insert
    from addToDb_after_miss [OF insert(3)] obtain key
      where key: "enc (Contents ?a) = Inr key" "db w key = None"
        "state_of (addToDb enc ?a (db w)) = db w
           \<or> state_of (addToDb enc ?a (db w)) = (db w)(key \<mapsto> DirName ?a)"
      by blast
    show ?thesis
      using key(3)
    proof
      assume "state_of (addToDb enc ?a (db w)) = db w"
      then show ?thesis
        unfolding insert(4) using Cons.IH [of w] by auto
    next
      assume s': "state_of (addToDb enc ?a (db w)) = (db w)(key \<mapsto> DirName ?a)"
      show ?thesis
        using Cons.IH [of "w\<lparr>db := (db w)(key \<mapsto> DirName ?a)\<rparr>" v]
          Cons.IH [of "w\<lparr>db := (db w)(key \<mapsto> DirName ?a)\<rparr>" "DirName ?a"]
          key(1,2) insert(1,2)
        unfolding insert(4) s'
        by (cases "k = key") (auto simp del: isAlbum.simps)
    qed
  qed
  then show ?case unfolding e .
qed

text \<open>
  C9. \<^verbatim>\<open>updateAlbumDb\<close> leaves both trees as they are, whether it returns or ends
  the process. In the store it keeps every entry, and an entry it adds is the name of
  a directory of the listing that is an album, under that album's fingerprint.
\<close>

theorem backfill_only_inserts:
  "source (state_of (updateAlbumDb enc musicDir w)) = source w
   \<and> target (state_of (updateAlbumDb enc musicDir w)) = target w
   \<and> (db w k = Some v \<longrightarrow> db (state_of (updateAlbumDb enc musicDir w)) k = Some v)
   \<and> (db w k = None \<and> db (state_of (updateAlbumDb enc musicDir w)) k = Some v \<longrightarrow>
        (\<exists>es. ReadDir (target w) = Inr es
          \<and> (\<exists>(nm, f) \<in> set es. IsDir f \<and> isAlbum (Join musicDir nm) f
               \<and> enc (Contents (newAlbum (Join musicDir nm) f)) = Inr k
               \<and> v = DirName (newAlbum (Join musicDir nm) f))))"
proof (cases "\<exists>es. ReadDir (target w) = Inr es \<and> \<not> locked w")
  case False
  then have "updateAlbumDb enc musicDir w = Exited w"
    by (auto simp: updateAlbumDb_def Open_def split: sum.splits)
  then show ?thesis by auto
next
  case True
  then obtain es where es: "ReadDir (target w) = Inr es" "\<not> locked w" by blast
  then have "updateAlbumDb enc musicDir w = updateAlbumDb_loop enc musicDir es w"
    by (simp add: updateAlbumDb_def Open_def)
  then show ?thesis
    using updateAlbumDb_loop_frame [of enc musicDir es w]
      updateAlbumDb_loop_inserts [of w k v enc musicDir es] es
    by simp
qed


theorem backfill_only_inserts_witness:
  "source (state_of (updateAlbumDb gobEncode ''/music''
      \<lparr>source = Dir [], target = Dir [(''B'', Dir [(''y.flac'', File 0)])], volume = 0,
        db = Map.empty, locked = False\<rparr>)) = Dir []
   \<and> target (state_of (updateAlbumDb gobEncode ''/music''
      \<lparr>source = Dir [], target = Dir [(''B'', Dir [(''y.flac'', File 0)])], volume = 0,
        db = Map.empty, locked = False\<rparr>)) = Dir [(''B'', Dir [(''y.flac'', File 0)])]
   \<and> db (state_of (updateAlbumDb gobEncode ''/music''
      \<lparr>source = Dir [], target = Dir [(''B'', Dir [(''y.flac'', File 0)])], volume = 0,
        db = Map.empty, locked = False\<rparr>)) (projr (gobEncode [''y.flac''])) = Some ''B''
   \<and> IsDir (Dir [(''y.flac'', File 0)])
   \<and> isAlbum (Join ''/music'' ''B'') (Dir [(''y.flac'', File 0)])
   \<and> gobEncode (Contents (newAlbum (Join ''/music'' ''B'') (Dir [(''y.flac'', File 0)])))
        = Inr (projr (gobEncode [''y.flac'']))
   \<and> DirName (newAlbum (Join ''/music'' ''B'') (Dir [(''y.flac'', File 0)])) = ''B''"
proof -
  let ?w = "\<lparr>source = Dir [], target = Dir [(''B'', Dir [(''y.flac'', File 0)])], volume = 0,
        db = Map.empty, locked = False\<rparr>"
  have run: "db (state_of (updateAlbumDb gobEncode ''/music'' ?w)) (projr (gobEncode [''y.flac'']))
      = Some ''B''"
    by (simp add: updateAlbumDb_def Open_def Join_def Ext_def Base_def newAlbum_def inDb_def
        addToDb_def Get_def Put_def gobEncode_def encodeStrings_def encodeUint_def tooBig_def
        MaxKeySize_def MaxValueSize_def typeDefinition_def)
  show ?thesis
    using run backfill_only_inserts [of gobEncode "''/music''" ?w
        "projr (gobEncode [''y.flac''])" "''B''"]
    by (simp add: Join_def Ext_def Base_def newAlbum_def gobEncode_def encodeStrings_def
        encodeUint_def tooBig_def)
qed


section \<open>The scan of the source tree\<close>

lemma linkNewAlbums_loop_cases:
  fixes enc sourceDir targetDir nm f es c w
  defines "a \<equiv> newAlbum (Join sourceDir nm) f"
  defines "lnk \<equiv> linkAlbum (volume w) (Join sourceDir nm) f targetDir (target w)"
  defines "run \<equiv> linkNewAlbums_loop enc sourceDir targetDir"
  obtains
    (regular) "\<not> IsDir f"
      "run ((nm, f) # es) c w = run es (c\<lparr>regFiles := regFiles c + 1\<rparr>) w"
  | (other) "IsDir f" "\<not> isAlbum (Join sourceDir nm) f"
      "run ((nm, f) # es) c w = run es c w"
  | (fatal) "IsDir f" "isAlbum (Join sourceDir nm) f" "inDb enc a (db w) = Exited (db w)"
      "run ((nm, f) # es) c w = Exited w"
  | (known) "IsDir f" "isAlbum (Join sourceDir nm) f" "inDb enc a (db w) = Returned True (db w)"
      "run ((nm, f) # es) c w = run es (c\<lparr>oldAlbums := oldAlbums c + 1\<rparr>) w"
  | (failed) t where "IsDir f" "isAlbum (Join sourceDir nm) f"
      "inDb enc a (db w) = Returned False (db w)" "lnk = Exited t"
      "run ((nm, f) # es) c w = Exited (w\<lparr>target := t\<rparr>)"
  | (linked) t where "IsDir f" "isAlbum (Join sourceDir nm) f"
      "inDb enc a (db w) = Returned False (db w)" "lnk = Returned () t"
      "run ((nm, f) # es) c w
         = run es (c\<lparr>newAlbums := newAlbums c + 1\<rparr>)
             (w\<lparr>target := t, db := state_of (addToDb enc a (db w))\<rparr>)"
proof (cases "IsDir f")
  case False
  then show ?thesis by (intro regular) (simp_all add: run_def)
next
  case dir: True
  show ?thesis
  proof (cases "isAlbum (Join sourceDir nm) f")
    case False
    then show ?thesis using dir by (intro other) (simp_all add: run_def Let_def del: isAlbum.simps)
  next
    case alb: True
    from addToDb_res [of enc a "db w"] obtain err s'
      where add: "addToDb enc a (db w) = Returned err s'"
        and s': "state_of (addToDb enc a (db w)) = s'"
      by (cases "addToDb enc a (db w)") auto
    from inDb_res [of enc a "db w"] show ?thesis
    proof (elim disjE)
      assume h: "inDb enc a (db w) = Exited (db w)"
      show ?thesis
        using dir alb h
        by (intro fatal) (simp_all add: a_def run_def Let_def del: isAlbum.simps)
    next
      assume h: "inDb enc a (db w) = Returned True (db w)"
      show ?thesis
        using dir alb h
        by (intro known) (simp_all add: a_def run_def Let_def del: isAlbum.simps)
    next
      assume h: "inDb enc a (db w) = Returned False (db w)"
      show ?thesis
      proof (cases lnk)
        case (Exited t)
        have "run ((nm, f) # es) c w = Exited (w\<lparr>target := t\<rparr>)"
          using dir alb h Exited unfolding a_def run_def lnk_def
          by (simp add: Let_def del: isAlbum.simps linkAlbum.simps)
        then show ?thesis
          using dir alb h Exited by (intro failed [of t]) simp_all
      next
        case (Returned u t)
        have "run ((nm, f) # es) c w
         = run es (c\<lparr>newAlbums := newAlbums c + 1\<rparr>)
             (w\<lparr>target := t, db := state_of (addToDb enc a (db w))\<rparr>)"
          using dir alb h Returned add unfolding s' unfolding a_def run_def lnk_def
          by (simp add: Let_def del: isAlbum.simps linkAlbum.simps)
        then show ?thesis
          using dir alb h Returned by (intro linked [of t]) simp_all
      qed
    qed
  qed
qed

lemma map_of_insort_new:
  "n \<notin> set (map fst es) \<Longrightarrow>
     map_of (insort_key fst (n, y) es) k = (if k = n then Some y else map_of es k)"
  by (induction es) auto

lemma map_of_replace:
  "map_of (map (\<lambda>(m, x). if m = n then (m, d) else (m, x)) es) k
     = (if k = n then map_option (\<lambda>x. d) (map_of es n) else map_of es k)"
  by (induction es) auto

lemma Mkdir_child:
  "Mkdir n tgt = Inr tgt' \<Longrightarrow>
     child n tgt = None \<and> child n tgt' = Some (Dir []) \<and> (\<forall>k. k \<noteq> n \<longrightarrow> child k tgt' = child k tgt)
     \<and> IsDir tgt'"
  by (cases tgt) (auto simp: map_of_insort_new map_of_eq_None_iff split: if_splits)

lemma setChild_child:
  "child k (setChild n d t) = (if k = n then map_option (\<lambda>x. d) (child n t) else child k t)"
  by (cases t) (simp_all add: map_of_replace)

lemma linkAlbum_Returned:
  assumes "linkAlbum vol p src q tgt = Returned u t"
  shows "\<exists>d. linkAlbum_loop vol p (case ReadDir src of Inl err \<Rightarrow> [] | Inr fs \<Rightarrow> fs)
                 (Join q (Base p)) (Dir []) = Returned () d
           \<and> child (Base p) tgt = None \<and> child (Base p) t = Some d
           \<and> (\<forall>k. k \<noteq> Base p \<longrightarrow> child k t = child k tgt)"
proof (cases "Mkdir (Base p) tgt")
  case (Inl err)
  then show ?thesis using assms by (simp add: Let_def)
next
  case (Inr tgt')
  note mk = Mkdir_child [OF Inr]
  show ?thesis
  proof (cases "linkAlbum_loop vol p (case ReadDir src of Inl err \<Rightarrow> [] | Inr fs \<Rightarrow> fs)
                 (Join q (Base p)) (Dir [])")
    case (Exited d)
    then show ?thesis using assms Inr by (simp add: Let_def)
  next
    case (Returned u' d)
    then have "t = setChild (Base p) d tgt'"
      using assms Inr by (simp add: Let_def)
    then show ?thesis
      using mk Returned by (simp add: setChild_child)
  qed
qed

lemma linkAlbum_keeps_children:
  "child k tgt = Some x \<Longrightarrow> child k (state_of (linkAlbum vol p src q tgt)) = Some x"
proof (cases "Mkdir (Base p) tgt")
  case (Inl err)
  assume "child k tgt = Some x"
  then show ?thesis using Inl by (simp add: Let_def)
next
  case (Inr tgt')
  assume k: "child k tgt = Some x"
  note mk = Mkdir_child [OF Inr]
  have "k \<noteq> Base p" using mk k by auto
  then have "child k (setChild (Base p) d tgt') = Some x" for d
    using mk k by (simp add: setChild_child)
  then show ?thesis
    using Inr by (simp add: Let_def split: res.splits)
qed

lemma linkNewAlbums_loop_keeps_children:
  "child k (target w) = Some x \<Longrightarrow>
     child k (target (state_of (linkNewAlbums_loop enc sourceDir targetDir es c w))) = Some x"
proof (induction es arbitrary: c w)
  case Nil
  then show ?case by simp
next
  case (Cons e es)
  obtain nm f where e: "e = (nm, f)" by (cases e)
  let ?lnk = "linkAlbum (volume w) (Join sourceDir nm) f targetDir (target w)"
  have "child k (target (state_of (linkNewAlbums_loop enc sourceDir targetDir ((nm, f) # es) c w)))
      = Some x"
  proof (cases rule: linkNewAlbums_loop_cases [of f enc sourceDir targetDir nm es c w])
    case regular
    show ?thesis unfolding regular(2) using Cons by simp
  next
    case other
    show ?thesis unfolding other(3) using Cons by simp
  next
    case fatal
    show ?thesis unfolding fatal(4) using Cons.prems by simp
  next
    case known
    show ?thesis unfolding known(4) using Cons by simp
  next
    case (failed t)
    have "t = state_of ?lnk" using failed(4) by simp
    then show ?thesis
      unfolding failed(5) using linkAlbum_keeps_children [OF Cons.prems] by simp
  next
    case (linked t)
    have "t = state_of ?lnk" using linked(4) by simp
    then have "child k t = Some x"
      using linkAlbum_keeps_children [OF Cons.prems] by simp
    then show ?thesis
      unfolding linked(5) by (intro Cons.IH) simp
  qed
  then show ?case unfolding e .
qed


lemma linkNewAlbums_loop_volume:
  "volume (state_of (linkNewAlbums_loop enc sourceDir targetDir es c w)) = volume w"
proof (induction es arbitrary: c w)
  case Nil
  show ?case by simp
next
  case (Cons e es)
  obtain nm f where e: "e = (nm, f)" by (cases e)
  have "volume (state_of (linkNewAlbums_loop enc sourceDir targetDir ((nm, f) # es) c w))
      = volume w"
    by (cases rule: linkNewAlbums_loop_cases [of f enc sourceDir targetDir nm es c w])
       (simp_all add: Cons.IH)
  then show ?case unfolding e .
qed

lemma linkNewAlbums_loop_keeps_entries:
  "db w k = Some v \<Longrightarrow>
     db (state_of (linkNewAlbums_loop enc sourceDir targetDir es c w)) k = Some v"
proof (induction es arbitrary: c w)
  case Nil
  then show ?case by simp
next
  case (Cons e es)
  obtain nm f where e: "e = (nm, f)" by (cases e)
  let ?a = "newAlbum (Join sourceDir nm) f"
  have "db (state_of (linkNewAlbums_loop enc sourceDir targetDir ((nm, f) # es) c w)) k = Some v"
  proof (cases rule: linkNewAlbums_loop_cases [of f enc sourceDir targetDir nm es c w])
    case regular
    show ?thesis unfolding regular(2) using Cons by simp
  next
    case other
    show ?thesis unfolding other(3) using Cons by simp
  next
    case fatal
    show ?thesis unfolding fatal(4) using Cons.prems by simp
  next
    case known
    show ?thesis unfolding known(4) using Cons by simp
  next
    case (failed t)
    show ?thesis unfolding failed(5) using Cons.prems by simp
  next
    case (linked t)
    from addToDb_after_miss [OF linked(3)] obtain key
      where key: "db w key = None"
        "state_of (addToDb enc ?a (db w)) = db w
           \<or> state_of (addToDb enc ?a (db w)) = (db w)(key \<mapsto> DirName ?a)"
      by blast
    then have "state_of (addToDb enc ?a (db w)) k = Some v"
      using Cons.prems by auto
    then show ?thesis
      unfolding linked(5) by (intro Cons.IH) simp
  qed
  then show ?case unfolding e .
qed

lemma linkNewAlbums_loop_registers:
  "db w k = None \<and> db (state_of (linkNewAlbums_loop enc sourceDir targetDir es c w)) k = Some v
   \<longrightarrow> (\<exists>(nm, f) \<in> set es. \<exists>fs d.
          IsDir f \<and> isAlbum (Join sourceDir nm) f
          \<and> enc (Contents (newAlbum (Join sourceDir nm) f)) = Inr k
          \<and> v = DirName (newAlbum (Join sourceDir nm) f)
          \<and> ReadDir f = Inr fs
          \<and> linkAlbum_loop (volume w) (Join sourceDir nm) fs
                (Join targetDir (Base (Join sourceDir nm))) (Dir []) = Returned () d
          \<and> child (Base (Join sourceDir nm)) (target w) = None
          \<and> child (Base (Join sourceDir nm))
                (target (state_of (linkNewAlbums_loop enc sourceDir targetDir es c w))) = Some d)"
proof (induction es arbitrary: c w)
  case Nil
  show ?case by auto
next
  case (Cons e es)
  obtain nm f where e: "e = (nm, f)" by (cases e)
  let ?run = "linkNewAlbums_loop enc sourceDir targetDir"
  let ?a = "newAlbum (Join sourceDir nm) f"
  let ?ok = "\<lambda>vol t0 t' (nm, f). \<exists>fs d.
          IsDir f \<and> isAlbum (Join sourceDir nm) f
          \<and> enc (Contents (newAlbum (Join sourceDir nm) f)) = Inr k
          \<and> v = DirName (newAlbum (Join sourceDir nm) f)
          \<and> ReadDir f = Inr fs
          \<and> linkAlbum_loop vol (Join sourceDir nm) fs
                (Join targetDir (Base (Join sourceDir nm))) (Dir []) = Returned () d
          \<and> child (Base (Join sourceDir nm)) t0 = None
          \<and> child (Base (Join sourceDir nm)) t' = Some d"
  let ?G = "\<lambda>r. db w k = None \<and> db (state_of r) k = Some v
     \<longrightarrow> (\<exists>x \<in> set ((nm, f) # es). ?ok (volume w) (target w) (target (state_of r)) x)"
  have same: "?G (?run es c' w)" for c'
    using Cons.IH [of w c'] by auto
  have "?G (?run ((nm, f) # es) c w)"
  proof (cases rule: linkNewAlbums_loop_cases [of f enc sourceDir targetDir nm es c w])
    case regular
    show ?thesis unfolding regular(2) by (rule same)
  next
    case other
    show ?thesis unfolding other(3) by (rule same)
  next
    case fatal
    show ?thesis unfolding fatal(4) by auto
  next
    case known
    show ?thesis unfolding known(4) by (rule same)
  next
    case (failed t)
    show ?thesis unfolding failed(5) by auto
  next
    case (linked t)
    let ?w1 = "w\<lparr>target := t, db := state_of (addToDb enc ?a (db w))\<rparr>"
    let ?c1 = "c\<lparr>newAlbums := newAlbums c + 1\<rparr>"
    let ?w' = "state_of (?run es ?c1 ?w1)"
    from linkAlbum_Returned [OF linked(4)] obtain d
      where d: "linkAlbum_loop (volume w) (Join sourceDir nm)
                  (case ReadDir f of Inl err \<Rightarrow> [] | Inr fs \<Rightarrow> fs)
                  (Join targetDir (Base (Join sourceDir nm))) (Dir []) = Returned () d"
        "child (Base (Join sourceDir nm)) (target w) = None"
        "child (Base (Join sourceDir nm)) t = Some d"
        "\<forall>k. k \<noteq> Base (Join sourceDir nm) \<longrightarrow> child k t = child k (target w)"
      by blast
    from linked(2) obtain fs where fs: "ReadDir f = Inr fs"
      by (cases f) simp_all
    have kept: "child (Base (Join sourceDir nm)) (target ?w') = Some d"
      using d(3) by (intro linkNewAlbums_loop_keeps_children) simp
    from addToDb_after_miss [OF linked(3)] obtain key
      where key: "enc (Contents ?a) = Inr key" "db w key = None"
        "state_of (addToDb enc ?a (db w)) = db w
           \<or> state_of (addToDb enc ?a (db w)) = (db w)(key \<mapsto> DirName ?a)"
      by blast
    have head: "?ok (volume w) (target w) (target ?w') (nm, f)"
      if "k = key" "v = DirName ?a"
      using that linked(1,2) key(1) fs d(1,2) kept by simp
    have older: "child n (target w) = None" if "child n t = None" for n
      using that d(3,4) by (cases "n = Base (Join sourceDir nm)") auto
    have rest: "\<exists>x \<in> set es. ?ok (volume w) (target w) (target ?w') x"
      if "db ?w1 k = None" "db ?w' k = Some v"
    proof -
      from Cons.IH [of ?w1 ?c1] that
      obtain x where x: "x \<in> set es" "?ok (volume w) t (target ?w') x"
        by auto
      then have "?ok (volume w) (target w) (target ?w') x"
        using older by (cases x) auto
      then show ?thesis using x(1) by blast
    qed
    have "?G (?run es ?c1 ?w1)"
    proof (intro impI, elim conjE)
      assume a: "db w k = None" "db ?w' k = Some v"
      show "\<exists>x \<in> set ((nm, f) # es). ?ok (volume w) (target w) (target ?w') x"
      proof (cases "db ?w1 k = None")
        case True
        then show ?thesis using rest a(2) by auto
      next
        case False
        then have "k = key" and new: "db ?w1 = (db w)(key \<mapsto> DirName ?a)"
          using a(1) key(3) by (auto split: if_splits)
        moreover have "db ?w' key = Some (DirName ?a)"
          using new by (intro linkNewAlbums_loop_keeps_entries) simp
        ultimately show ?thesis using head a(2) by auto
      qed
    qed
    then show ?thesis unfolding linked(5) .
  qed
  then show ?case unfolding e by simp
qed


text \<open>
  What the scan does around one call of \<^verbatim>\<open>linkAlbum\<close>: when the call ends the
  process the scan ends there with the store as it was, and an entry that a run adds to
  the store belongs to an album whose loop of replication returned, the copy being in
  the target after the run and not before.
\<close>

lemma replication_before_registration:
  "(IsDir f \<and> isAlbum (Join sourceDir nm) f
      \<and> inDb enc (newAlbum (Join sourceDir nm) f) (db w) = Returned False (db w)
      \<and> linkAlbum (volume w) (Join sourceDir nm) f targetDir (target w) = Exited t
      \<and> enc (Contents (newAlbum (Join sourceDir nm) f)) = Inr key
     \<longrightarrow> linkNewAlbums_loop enc sourceDir targetDir ((nm, f) # rest) c w
           = Exited (w\<lparr>target := t\<rparr>)
         \<and> db (w\<lparr>target := t\<rparr>) key = None)
   \<and> (db w0 k = None \<and> db (state_of (linkNewAlbums enc sourceDir targetDir w0)) k = Some v
     \<longrightarrow> (\<exists>es. ReadDir (source w0) = Inr es
          \<and> (\<exists>(nm, f) \<in> set es. \<exists>fs d.
                IsDir f \<and> isAlbum (Join sourceDir nm) f
                \<and> enc (Contents (newAlbum (Join sourceDir nm) f)) = Inr k
                \<and> v = DirName (newAlbum (Join sourceDir nm) f)
                \<and> ReadDir f = Inr fs
                \<and> linkAlbum_loop (volume w0) (Join sourceDir nm) fs
                      (Join targetDir (Base (Join sourceDir nm))) (Dir []) = Returned () d
                \<and> child (Base (Join sourceDir nm)) (target w0) = None
                \<and> child (Base (Join sourceDir nm))
                      (target (state_of (linkNewAlbums enc sourceDir targetDir w0))) = Some d)))"
proof (intro conjI impI)
  assume h: "IsDir f \<and> isAlbum (Join sourceDir nm) f
      \<and> inDb enc (newAlbum (Join sourceDir nm) f) (db w) = Returned False (db w)
      \<and> linkAlbum (volume w) (Join sourceDir nm) f targetDir (target w) = Exited t
      \<and> enc (Contents (newAlbum (Join sourceDir nm) f)) = Inr key"
  then show "linkNewAlbums_loop enc sourceDir targetDir ((nm, f) # rest) c w
           = Exited (w\<lparr>target := t\<rparr>)"
    by (simp add: Let_def del: isAlbum.simps linkAlbum.simps)
  from h show "db (w\<lparr>target := t\<rparr>) key = None"
    by (auto simp: inDb_def Get_def)
next
  assume h: "db w0 k = None
    \<and> db (state_of (linkNewAlbums enc sourceDir targetDir w0)) k = Some v"
  show "\<exists>es. ReadDir (source w0) = Inr es
          \<and> (\<exists>(nm, f) \<in> set es. \<exists>fs d.
                IsDir f \<and> isAlbum (Join sourceDir nm) f
                \<and> enc (Contents (newAlbum (Join sourceDir nm) f)) = Inr k
                \<and> v = DirName (newAlbum (Join sourceDir nm) f)
                \<and> ReadDir f = Inr fs
                \<and> linkAlbum_loop (volume w0) (Join sourceDir nm) fs
                      (Join targetDir (Base (Join sourceDir nm))) (Dir []) = Returned () d
                \<and> child (Base (Join sourceDir nm)) (target w0) = None
                \<and> child (Base (Join sourceDir nm))
                      (target (state_of (linkNewAlbums enc sourceDir targetDir w0))) = Some d)"
  proof (cases "locked w0")
    case True
    then have "linkNewAlbums enc sourceDir targetDir w0 = Exited w0"
      by (simp add: linkNewAlbums_def Open_def)
    then show ?thesis using h by auto
  next
    case False
    show ?thesis
    proof (cases "ReadDir (source w0)")
      case (Inl err)
      then have "state_of (linkNewAlbums enc sourceDir targetDir w0) = w0"
        using False by (simp add: linkNewAlbums_def Open_def)
      then show ?thesis using h by auto
    next
      case (Inr es)
      then have "linkNewAlbums enc sourceDir targetDir w0
          = linkNewAlbums_loop enc sourceDir targetDir es
              \<lparr>regFiles = 0, newAlbums = 0, oldAlbums = 0\<rparr> w0"
        using False by (simp add: linkNewAlbums_def Open_def)
      then show ?thesis
        using h Inr
          linkNewAlbums_loop_registers [of w0 k enc sourceDir targetDir es
            "\<lparr>regFiles = 0, newAlbums = 0, oldAlbums = 0\<rparr>" v]
        by simp
    qed
  qed
qed

lemma failing_exits:
  shows "failing vol p src q tgt \<Longrightarrow> \<exists>t. linkAlbum vol p src q tgt = Exited t"
    and "failing_loop vol p es q d \<Longrightarrow> \<exists>d'. linkAlbum_loop vol p es q d = Exited d'"
proof (induction rule: failing_failing_loop.inducts)
  case (mkdir_fails sourcePath tgt err vol src targetPath)
  then show ?case by (simp add: Let_def)
next
  case (fails_below sourcePath tgt tgt' vol src targetPath)
  then show ?case by (auto simp: Let_def)
next
  case (link_fails fl vol name d err sourcePath rest targetDirPath)
  then show ?case by (simp del: linkAlbum.simps)
next
  case (fails_nested fl vol sourcePath name targetDirPath d rest)
  then show ?case by (auto simp del: linkAlbum.simps)
next
  case (fails_after_link fl vol name d d' sourcePath rest targetDirPath)
  then show ?case by (simp del: linkAlbum.simps)
next
  case (fails_after_nested fl vol sourcePath name targetDirPath d u d' rest)
  then show ?case by (simp del: linkAlbum.simps)
qed

lemma exits_failing:
  shows "linkAlbum vol p src q tgt = Exited t \<Longrightarrow> failing vol p src q tgt"
    and "linkAlbum_loop vol p es q d = Exited d' \<Longrightarrow> failing_loop vol p es q d"
proof (induction vol p src q tgt and vol p es q d arbitrary: t and d'
    rule: linkAlbum_linkAlbum_loop.induct)
  case (1 vol sourcePath src targetPath tgt)
  show ?case
  proof (cases "Mkdir (Base sourcePath) tgt")
    case (Inl err)
    then show ?thesis by (rule mkdir_fails)
  next
    case (Inr tgt')
    let ?es = "case ReadDir src of Inl err \<Rightarrow> [] | Inr fs \<Rightarrow> fs"
    obtain d' where "linkAlbum_loop vol sourcePath ?es (Join targetPath (Base sourcePath)) (Dir [])
        = Exited d'"
      using "1.prems" Inr by (auto simp: Let_def split: res.splits)
    then have "failing_loop vol sourcePath ?es (Join targetPath (Base sourcePath)) (Dir [])"
      by (rule "1.IH" [OF refl refl Inr])
    with Inr show ?thesis by (rule fails_below)
  qed
next
  case (2 vol sourcePath targetDirPath d)
  then show ?case by simp
next
  case (3 vol sourcePath name fl rest targetDirPath d)
  show ?case
  proof (cases "IsDir fl")
    case True
    show ?thesis
    proof (cases "linkAlbum vol (Join sourcePath name) fl targetDirPath d")
      case (Exited t)
      then have "failing vol (Join sourcePath name) fl targetDirPath d"
        by (rule "3.IH"(1) [OF True])
      with True show ?thesis by (rule fails_nested)
    next
      case (Returned u d1)
      then have "linkAlbum_loop vol sourcePath rest targetDirPath d1 = Exited d'"
        using "3.prems" True by (simp del: linkAlbum.simps)
      then have "failing_loop vol sourcePath rest targetDirPath d1"
        by (rule "3.IH"(2) [OF True Returned])
      with True Returned show ?thesis by (rule fails_after_nested)
    qed
  next
    case False
    show ?thesis
    proof (cases "Link vol fl name d")
      case (Inl err)
      with False show ?thesis by (rule link_fails)
    next
      case (Inr d1)
      then have "linkAlbum_loop vol sourcePath rest targetDirPath d1 = Exited d'"
        using "3.prems" False by (simp del: linkAlbum.simps)
      then have "failing_loop vol sourcePath rest targetDirPath d1"
        by (rule "3.IH"(3) [OF False Inr])
      with False Inr show ?thesis by (rule fails_after_link)
    qed
  qed
qed

lemma returned_onVolume:
  shows "linkAlbum vol p src q tgt = Returned u t \<Longrightarrow> IsDir src \<Longrightarrow> onVolume vol src"
    and "linkAlbum_loop vol p es q d = Returned u' d' \<Longrightarrow> onVolume_list vol es"
proof (induction vol p src q tgt and vol p es q d arbitrary: u t and u' d'
    rule: linkAlbum_linkAlbum_loop.induct)
  case (1 vol sourcePath src targetPath tgt)
  let ?es = "case ReadDir src of Inl err \<Rightarrow> [] | Inr fs \<Rightarrow> fs"
  obtain tgt' where mk: "Mkdir (Base sourcePath) tgt = Inr tgt'"
    using "1.prems"(1) by (cases "Mkdir (Base sourcePath) tgt") (simp_all add: Let_def)
  obtain u1 d1 where "linkAlbum_loop vol sourcePath ?es (Join targetPath (Base sourcePath)) (Dir [])
        = Returned u1 d1"
    using "1.prems"(1) mk by (auto simp: Let_def split: res.splits)
  then have "onVolume_list vol ?es"
    by (rule "1.IH" [OF refl refl mk])
  then show ?case
    using "1.prems"(2) by (cases src) simp_all
next
  case (2 vol sourcePath targetDirPath d)
  show ?case by simp
next
  case (3 vol sourcePath name fl rest targetDirPath d)
  show ?case
  proof (cases "IsDir fl")
    case True
    obtain u1 d1 where r1: "linkAlbum vol (Join sourcePath name) fl targetDirPath d = Returned u1 d1"
      and r2: "linkAlbum_loop vol sourcePath rest targetDirPath d1 = Returned u' d'"
      using "3.prems" True
      by (cases "linkAlbum vol (Join sourcePath name) fl targetDirPath d")
         (simp_all del: linkAlbum.simps)
    have "onVolume vol fl"
      using r1 True by (rule "3.IH"(1) [OF True])
    moreover have "onVolume_list vol rest"
      using r2 by (rule "3.IH"(2) [OF True r1])
    ultimately show ?thesis by simp
  next
    case False
    obtain d1 where l1: "Link vol fl name d = Inr d1"
      and r2: "linkAlbum_loop vol sourcePath rest targetDirPath d1 = Returned u' d'"
      using "3.prems" False by (cases "Link vol fl name d") (simp_all del: linkAlbum.simps)
    have "onVolume vol fl"
      using l1 by (cases fl; cases d) (simp_all split: if_splits)
    moreover have "onVolume_list vol rest"
      using r2 by (rule "3.IH"(3) [OF False l1])
    ultimately show ?thesis by simp
  qed
qed

text \<open>
  C7. \<^verbatim>\<open>linkAlbum\<close> ends the process exactly when some step of the replication
  fails: the creation of the album's directory or of any directory below it, or the
  link of any file at any depth. At any point of the scan, when a step of the
  replication of a detected album that the store does not know fails, the scan ends
  there with the store as it was: the album's fingerprint is not in it. And every entry
  that a run of \<^verbatim>\<open>linkNewAlbums\<close> adds to the store, whether the run returns or ends
  the process, belongs to an album of the listing whose replication ran to its end with
  no step failing: every file of the album lies on the volume of the target, the target
  held no directory of the album's name before the run, and after it holds the complete
  copy under that name.
\<close>

theorem registered_only_after_replication:
  "(failing vol sourcePath src targetPath tgt
      \<longleftrightarrow> (\<exists>t'. linkAlbum vol sourcePath src targetPath tgt = Exited t'))
   \<and> (IsDir f \<and> isAlbum (Join sourceDir nm) f
      \<and> inDb enc (newAlbum (Join sourceDir nm) f) (db w) = Returned False (db w)
      \<and> failing (volume w) (Join sourceDir nm) f targetDir (target w)
      \<and> enc (Contents (newAlbum (Join sourceDir nm) f)) = Inr key
     \<longrightarrow> (\<exists>t'. linkNewAlbums_loop enc sourceDir targetDir ((nm, f) # rest) c w
                 = Exited (w\<lparr>target := t'\<rparr>)
               \<and> db (w\<lparr>target := t'\<rparr>) key = None))
   \<and> (IsDir f \<and> isAlbum (Join sourceDir nm) f
      \<and> inDb enc (newAlbum (Join sourceDir nm) f) (db w) = Returned False (db w)
      \<and> linkAlbum (volume w) (Join sourceDir nm) f targetDir (target w) = Exited t
      \<and> enc (Contents (newAlbum (Join sourceDir nm) f)) = Inr key
     \<longrightarrow> linkNewAlbums_loop enc sourceDir targetDir ((nm, f) # rest) c w
           = Exited (w\<lparr>target := t\<rparr>)
         \<and> db (w\<lparr>target := t\<rparr>) key = None)
   \<and> (db w0 k = None \<and> db (state_of (linkNewAlbums enc sourceDir targetDir w0)) k = Some v
     \<longrightarrow> (\<exists>es. ReadDir (source w0) = Inr es
          \<and> (\<exists>(nm, f) \<in> set es. \<exists>fs d.
                IsDir f \<and> isAlbum (Join sourceDir nm) f
                \<and> enc (Contents (newAlbum (Join sourceDir nm) f)) = Inr k
                \<and> v = DirName (newAlbum (Join sourceDir nm) f)
                \<and> ReadDir f = Inr fs
                \<and> linkAlbum_loop (volume w0) (Join sourceDir nm) fs
                      (Join targetDir (Base (Join sourceDir nm))) (Dir []) = Returned () d
                \<and> \<not> failing_loop (volume w0) (Join sourceDir nm) fs
                      (Join targetDir (Base (Join sourceDir nm))) (Dir [])
                \<and> onVolume (volume w0) f
                \<and> child (Base (Join sourceDir nm)) (target w0) = None
                \<and> child (Base (Join sourceDir nm))
                      (target (state_of (linkNewAlbums enc sourceDir targetDir w0))) = Some d)))"
proof (intro conjI impI)
  show "failing vol sourcePath src targetPath tgt
      \<longleftrightarrow> (\<exists>t'. linkAlbum vol sourcePath src targetPath tgt = Exited t')"
    using failing_exits(1) exits_failing(1) by blast
next
  assume h: "IsDir f \<and> isAlbum (Join sourceDir nm) f
      \<and> inDb enc (newAlbum (Join sourceDir nm) f) (db w) = Returned False (db w)
      \<and> failing (volume w) (Join sourceDir nm) f targetDir (target w)
      \<and> enc (Contents (newAlbum (Join sourceDir nm) f)) = Inr key"
  then obtain t' where
    "linkAlbum (volume w) (Join sourceDir nm) f targetDir (target w) = Exited t'"
    using failing_exits(1) by blast
  then have "linkNewAlbums_loop enc sourceDir targetDir ((nm, f) # rest) c w
      = Exited (w\<lparr>target := t'\<rparr>)"
    using h by (simp add: Let_def del: isAlbum.simps linkAlbum.simps)
  moreover have "db (w\<lparr>target := t'\<rparr>) key = None"
    using h by (auto simp: inDb_def Get_def)
  ultimately show "\<exists>t'. linkNewAlbums_loop enc sourceDir targetDir ((nm, f) # rest) c w
                 = Exited (w\<lparr>target := t'\<rparr>)
               \<and> db (w\<lparr>target := t'\<rparr>) key = None"
    by blast
next
  assume h: "IsDir f \<and> isAlbum (Join sourceDir nm) f
      \<and> inDb enc (newAlbum (Join sourceDir nm) f) (db w) = Returned False (db w)
      \<and> linkAlbum (volume w) (Join sourceDir nm) f targetDir (target w) = Exited t
      \<and> enc (Contents (newAlbum (Join sourceDir nm) f)) = Inr key"
  then show "linkNewAlbums_loop enc sourceDir targetDir ((nm, f) # rest) c w
           = Exited (w\<lparr>target := t\<rparr>)"
    by (simp add: Let_def del: isAlbum.simps linkAlbum.simps)
  from h show "db (w\<lparr>target := t\<rparr>) key = None"
    by (auto simp: inDb_def Get_def)
next
  assume h: "db w0 k = None
    \<and> db (state_of (linkNewAlbums enc sourceDir targetDir w0)) k = Some v"
  let ?w' = "state_of (linkNewAlbums enc sourceDir targetDir w0)"
  from replication_before_registration [where ?w0.0 = w0 and k = k and v = v and enc = enc
      and sourceDir = sourceDir and targetDir = targetDir] h
  obtain es x where es: "ReadDir (source w0) = Inr es" "x \<in> set es"
    and x: "case x of (nm, f) \<Rightarrow> \<exists>fs d.
                IsDir f \<and> isAlbum (Join sourceDir nm) f
                \<and> enc (Contents (newAlbum (Join sourceDir nm) f)) = Inr k
                \<and> v = DirName (newAlbum (Join sourceDir nm) f)
                \<and> ReadDir f = Inr fs
                \<and> linkAlbum_loop (volume w0) (Join sourceDir nm) fs
                      (Join targetDir (Base (Join sourceDir nm))) (Dir []) = Returned () d
                \<and> child (Base (Join sourceDir nm)) (target w0) = None
                \<and> child (Base (Join sourceDir nm)) (target ?w') = Some d"
    by blast
  obtain nm' f' where p: "x = (nm', f')" by (cases x)
  from x obtain fs d where a: "IsDir f'" "isAlbum (Join sourceDir nm') f'"
      "enc (Contents (newAlbum (Join sourceDir nm') f')) = Inr k"
      "v = DirName (newAlbum (Join sourceDir nm') f')" "ReadDir f' = Inr fs"
      "linkAlbum_loop (volume w0) (Join sourceDir nm') fs
         (Join targetDir (Base (Join sourceDir nm'))) (Dir []) = Returned () d"
      "child (Base (Join sourceDir nm')) (target w0) = None"
      "child (Base (Join sourceDir nm')) (target ?w') = Some d"
    unfolding p by auto
  have nf: "\<not> failing_loop (volume w0) (Join sourceDir nm') fs
      (Join targetDir (Base (Join sourceDir nm'))) (Dir [])"
    using failing_exits(2) a(6) by fastforce
  have "onVolume_list (volume w0) fs"
    using a(6) by (rule returned_onVolume(2))
  moreover have "f' = Dir fs"
    using a(5) by (cases f') simp_all
  ultimately have ov: "onVolume (volume w0) f'" by simp
  have "case x of (nm, f) \<Rightarrow> \<exists>fs d.
                IsDir f \<and> isAlbum (Join sourceDir nm) f
                \<and> enc (Contents (newAlbum (Join sourceDir nm) f)) = Inr k
                \<and> v = DirName (newAlbum (Join sourceDir nm) f)
                \<and> ReadDir f = Inr fs
                \<and> linkAlbum_loop (volume w0) (Join sourceDir nm) fs
                      (Join targetDir (Base (Join sourceDir nm))) (Dir []) = Returned () d
                \<and> \<not> failing_loop (volume w0) (Join sourceDir nm) fs
                      (Join targetDir (Base (Join sourceDir nm))) (Dir [])
                \<and> onVolume (volume w0) f
                \<and> child (Base (Join sourceDir nm)) (target w0) = None
                \<and> child (Base (Join sourceDir nm)) (target ?w') = Some d"
    unfolding p using a nf ov by (auto simp del: isAlbum.simps)
  then show "\<exists>es. ReadDir (source w0) = Inr es
          \<and> (\<exists>(nm, f) \<in> set es. \<exists>fs d.
                IsDir f \<and> isAlbum (Join sourceDir nm) f
                \<and> enc (Contents (newAlbum (Join sourceDir nm) f)) = Inr k
                \<and> v = DirName (newAlbum (Join sourceDir nm) f)
                \<and> ReadDir f = Inr fs
                \<and> linkAlbum_loop (volume w0) (Join sourceDir nm) fs
                      (Join targetDir (Base (Join sourceDir nm))) (Dir []) = Returned () d
                \<and> \<not> failing_loop (volume w0) (Join sourceDir nm) fs
                      (Join targetDir (Base (Join sourceDir nm))) (Dir [])
                \<and> onVolume (volume w0) f
                \<and> child (Base (Join sourceDir nm)) (target w0) = None
                \<and> child (Base (Join sourceDir nm)) (target ?w') = Some d)"
    using es by blast
qed

theorem registered_only_after_replication_witness:
  "failing 0 (Join ''/downloads'' ''B'')
       (Dir [(''sub'', Dir [(''y.flac'', File 1)]), (''z.flac'', File 0)]) ''/music'' (Dir [])
   \<and> \<not> onVolume 0 (Dir [(''sub'', Dir [(''y.flac'', File 1)]), (''z.flac'', File 0)])
   \<and> isAlbum (Join ''/downloads'' ''B'')
         (Dir [(''sub'', Dir [(''y.flac'', File 1)]), (''z.flac'', File 0)])
   \<and> linkNewAlbums_loop gobEncode ''/downloads'' ''/music''
        [(''B'', Dir [(''sub'', Dir [(''y.flac'', File 1)]), (''z.flac'', File 0)])]
        \<lparr>regFiles = 0, newAlbums = 0, oldAlbums = 0\<rparr>
        \<lparr>source = Dir [], target = Dir [], volume = 0, db = Map.empty, locked = False\<rparr>
      = Exited \<lparr>source = Dir [], target = Dir [(''B'', Dir [(''sub'', Dir [])])], volume = 0,
                 db = Map.empty, locked = False\<rparr>
   \<and> db (state_of (linkNewAlbums gobEncode ''/downloads'' ''/music''
        \<lparr>source = Dir [(''A'', Dir [(''CD1'', Dir [(''x.flac'', File 0)])])], target = Dir [],
          volume = 0, db = Map.empty, locked = False\<rparr>)) (projr (gobEncode [''CD1''])) = Some ''A''
   \<and> child ''A'' (target (state_of (linkNewAlbums gobEncode ''/downloads'' ''/music''
        \<lparr>source = Dir [(''A'', Dir [(''CD1'', Dir [(''x.flac'', File 0)])])], target = Dir [],
          volume = 0, db = Map.empty, locked = False\<rparr>)))
        = Some (Dir [(''CD1'', Dir [(''x.flac'', File 0)])])
   \<and> onVolume 0 (Dir [(''CD1'', Dir [(''x.flac'', File 0)])])"
proof -
  let ?B = "Dir [(''sub'', Dir [(''y.flac'', File 1)]), (''z.flac'', File 0)]"
  let ?wa = "\<lparr>source = Dir [], target = Dir [], volume = 0, db = Map.empty, locked = False\<rparr>"
  let ?wb = "\<lparr>source = Dir [(''A'', Dir [(''CD1'', Dir [(''x.flac'', File 0)])])], target = Dir [],
          volume = 0, db = Map.empty, locked = False\<rparr>"
  note defs = linkNewAlbums_def Open_def Join_def Ext_def Base_def newAlbum_def inDb_def
        addToDb_def Get_def Put_def gobEncode_def encodeStrings_def encodeUint_def tooBig_def
        MaxKeySize_def MaxValueSize_def typeDefinition_def
  note inst = registered_only_after_replication [where vol = 0
        and sourcePath = "Join ''/downloads'' ''B''" and src = ?B and targetPath = "''/music''"
        and tgt = "Dir []" and f = ?B
        and sourceDir = "''/downloads''" and nm = "''B''" and enc = gobEncode and w = ?wa
        and targetDir = "''/music''" and t = "Dir [(''B'', Dir [(''sub'', Dir [])])]"
        and key = "projr (gobEncode [''sub'', ''z.flac''])" and rest = "[]"
        and c = "\<lparr>regFiles = 0, newAlbums = 0, oldAlbums = 0\<rparr>" and ?w0.0 = ?wb
        and k = "projr (gobEncode [''CD1''])" and v = "''A''"]
  have ex: "linkAlbum 0 (Join ''/downloads'' ''B'') ?B ''/music'' (Dir [])
      = Exited (Dir [(''B'', Dir [(''sub'', Dir [])])])"
    by (simp add: defs)
  have fl: "failing 0 (Join ''/downloads'' ''B'') ?B ''/music'' (Dir [])"
    using inst ex by blast
  have run: "db (state_of (linkNewAlbums gobEncode ''/downloads'' ''/music'' ?wb))
        (projr (gobEncode [''CD1''])) = Some ''A''"
    by (simp add: defs)
  have tgt: "child ''A'' (target (state_of (linkNewAlbums gobEncode ''/downloads'' ''/music'' ?wb)))
      = Some (Dir [(''CD1'', Dir [(''x.flac'', File 0)])])"
    by (simp add: defs)
  have loop: "linkNewAlbums_loop gobEncode ''/downloads'' ''/music'' [(''B'', ?B)]
        \<lparr>regFiles = 0, newAlbums = 0, oldAlbums = 0\<rparr> ?wa
      = Exited \<lparr>source = Dir [], target = Dir [(''B'', Dir [(''sub'', Dir [])])], volume = 0,
                 db = Map.empty, locked = False\<rparr>"
    by (simp add: defs)
  have alb: "isAlbum (Join ''/downloads'' ''B'') ?B"
    by (simp add: defs)
  show ?thesis
    using fl run tgt loop alb by simp
qed


section \<open>Failures of the encoder\<close>

text \<open>
  C6, as amended. When the encoder fails, \<^verbatim>\<open>inDb\<close> ends the process;
  \<^verbatim>\<open>addToDb\<close> does not: it returns the error and leaves the store as it was. In
  both scans \<^verbatim>\<open>inDb\<close> is asked first, so a detected album whose contents cannot be
  encoded ends the scan there.
\<close>

theorem encode_failure:
  "(enc (Contents album) = Inl err \<longrightarrow>
      inDb enc album s = Exited s \<and> addToDb enc album s = Returned (Some err) s)
   \<and> (IsDir f \<and> isAlbum (Join dir nm) f \<and> enc (Contents (newAlbum (Join dir nm) f)) = Inl err
      \<longrightarrow> updateAlbumDb_loop enc dir ((nm, f) # rest) w = Exited w
          \<and> linkNewAlbums_loop enc dir targetDir ((nm, f) # rest) c w = Exited w)"
  by (simp add: inDb_def addToDb_def Let_def del: isAlbum.simps)

theorem encode_failure_witness:
  "inDb (\<lambda>xs. Inl ErrMessageTooBig) \<lparr>DirName = ''A'', Contents = [''x.flac'']\<rparr> Map.empty
     = Exited Map.empty
   \<and> addToDb (\<lambda>xs. Inl ErrMessageTooBig) \<lparr>DirName = ''A'', Contents = [''x.flac'']\<rparr> Map.empty
     = Returned (Some ErrMessageTooBig) Map.empty
   \<and> IsDir (Dir [(''x.flac'', File 0)])
   \<and> isAlbum (Join ''/downloads'' ''A'') (Dir [(''x.flac'', File 0)])
   \<and> updateAlbumDb_loop (\<lambda>xs. Inl ErrMessageTooBig) ''/downloads''
        [(''A'', Dir [(''x.flac'', File 0)])]
        \<lparr>source = Dir [], target = Dir [], volume = 0, db = Map.empty, locked = False\<rparr>
      = Exited \<lparr>source = Dir [], target = Dir [], volume = 0, db = Map.empty, locked = False\<rparr>
   \<and> linkNewAlbums_loop (\<lambda>xs. Inl ErrMessageTooBig) ''/downloads'' ''/music''
        [(''A'', Dir [(''x.flac'', File 0)])] \<lparr>regFiles = 0, newAlbums = 0, oldAlbums = 0\<rparr>
        \<lparr>source = Dir [], target = Dir [], volume = 0, db = Map.empty, locked = False\<rparr>
      = Exited \<lparr>source = Dir [], target = Dir [], volume = 0, db = Map.empty, locked = False\<rparr>"
  using encode_failure [where enc = "\<lambda>xs. Inl ErrMessageTooBig"
      and album = "\<lparr>DirName = ''A'', Contents = [''x.flac'']\<rparr>" and err = ErrMessageTooBig
      and s = Map.empty and f = "Dir [(''x.flac'', File 0)]" and dir = "''/downloads''"
      and nm = "''A''" and rest = "[]"
      and w = "\<lparr>source = Dir [], target = Dir [], volume = 0, db = Map.empty, locked = False\<rparr>"
      and targetDir = "''/music''" and c = "\<lparr>regFiles = 0, newAlbums = 0, oldAlbums = 0\<rparr>"]
  by (simp add: Join_def Ext_def)

text \<open>
  C6, as stated, fails for \<^verbatim>\<open>addToDb\<close>: with an encoder that fails, the call
  returns to its caller, with the error as its value, and the process goes on.
\<close>

theorem insert_encode_failure_returns:
  "addToDb (\<lambda>xs. Inl ErrMessageTooBig) \<lparr>DirName = ''A'', Contents = [''x.flac'']\<rparr> Map.empty
     = Returned (Some ErrMessageTooBig) Map.empty
   \<and> addToDb (\<lambda>xs. Inl ErrMessageTooBig) \<lparr>DirName = ''A'', Contents = [''x.flac'']\<rparr> Map.empty
     \<noteq> Exited Map.empty"
  by (simp add: addToDb_def)

section \<open>Fingerprints\<close>

lemma bigEndian_Nil_iff: "bigEndian n = [] \<longleftrightarrow> n = 0"
  by (subst bigEndian.simps) simp

lemma bigEndian_inj: "bigEndian a = bigEndian b \<Longrightarrow> a = b"
proof (induction a arbitrary: b rule: bigEndian.induct)
  case (1 a)
  show ?case
  proof (cases "a = 0")
    case True
    then show ?thesis using "1.prems" bigEndian_Nil_iff by metis
  next
    case False
    then have b: "b \<noteq> 0" using "1.prems" bigEndian_Nil_iff by metis
    have "bigEndian (a div 256) @ [char_of (a mod 256)]
        = bigEndian (b div 256) @ [char_of (b mod 256)]"
      using "1.prems" False b
      by (subst (asm) bigEndian.simps, subst (asm) (2) bigEndian.simps) simp
    then have "bigEndian (a div 256) = bigEndian (b div 256)"
      and "char_of (a mod 256) = char_of (b mod 256)"
      by simp_all
    then have "a div 256 = b div 256" and "a mod 256 = b mod 256"
      using "1.IH" [OF False] by simp_all
    then show ?thesis
      by (metis div_mult_mod_eq)
  qed
qed

lemma length_bigEndian: "x < 256 ^ n \<Longrightarrow> length (bigEndian x) \<le> n"
proof (induction n arbitrary: x)
  case 0
  then show ?case by (simp add: bigEndian_Nil_iff)
next
  case (Suc n)
  then have "x div 256 < 256 ^ n"
    by (simp add: less_mult_imp_div_less mult.commute)
  then have "length (bigEndian (x div 256)) \<le> n" by (rule Suc.IH)
  then show ?case
    by (subst bigEndian.simps) simp
qed

lemma length_bigEndian_le: "length (bigEndian x) \<le> x"
proof (induction x rule: bigEndian.induct)
  case (1 n)
  show ?case
  proof (cases "n = 0")
    case True
    then show ?thesis by (simp add: bigEndian_Nil_iff)
  next
    case False
    then have "length (bigEndian (n div 256)) \<le> n div 256" by (rule "1.IH")
    moreover have "n div 256 < n" using False by simp
    ultimately show ?thesis
      using False by (subst bigEndian.simps) simp
  qed
qed

lemma length_encodeUint: "1 \<le> length (encodeUint x) \<and> length (encodeUint x) \<le> x + 1"
  using length_bigEndian_le [of x] by (simp add: encodeUint_def Let_def)

lemma encodeUint_prefix_free:
  assumes a: "a < 2 ^ 64" and b: "b < 2 ^ 64"
    and eq: "encodeUint a @ r = encodeUint b @ r'"
  shows "a = b \<and> r = r'"
proof -
  have len: "x < 2 ^ 64 \<Longrightarrow> 127 < x \<Longrightarrow>
      1 \<le> length (bigEndian x) \<and> length (bigEndian x) \<le> 8" for x :: nat
    using length_bigEndian [of x 8] bigEndian_Nil_iff [of x]
    by (cases "bigEndian x") simp_all
  have mixed: False
    if "x \<le> 127" "127 < y" "y < 2 ^ 64" "encodeUint x @ p = encodeUint y @ q" for x y p q
  proof -
    have "char_of x = char_of (256 - length (bigEndian y))"
      using that by (simp add: encodeUint_def Let_def)
    then have "x mod 256 = (256 - length (bigEndian y)) mod 256"
      by simp
    moreover have "(256 - length (bigEndian y)) mod 256 = 256 - length (bigEndian y)"
      by (rule mod_less) (use len [OF that(3,2)] in linarith)
    moreover have "x mod 256 = x"
      using that(1) by simp
    ultimately show False using that(1) len [OF that(3,2)] by arith
  qed
  show ?thesis
  proof (cases "a \<le> 127")
    case True
    show ?thesis
    proof (cases "b \<le> 127")
      case b7: True
      then have "char_of a = char_of b \<and> r = r'"
        using True eq by (simp add: encodeUint_def)
      then show ?thesis
        using True b7 by simp
    next
      case False
      then show ?thesis using mixed [OF True _ b eq] by simp
    qed
  next
    case False
    show ?thesis
    proof (cases "b \<le> 127")
      case True
      then show ?thesis using mixed [OF True _ a eq [symmetric]] False by simp
    next
      case b7: False
      have la: "1 \<le> length (bigEndian a) \<and> length (bigEndian a) \<le> 8"
        using len [OF a] False by simp
      have lb: "1 \<le> length (bigEndian b) \<and> length (bigEndian b) \<le> 8"
        using len [OF b] b7 by simp
      have "char_of (256 - length (bigEndian a)) = char_of (256 - length (bigEndian b))"
        and rest: "bigEndian a @ r = bigEndian b @ r'"
        using eq False b7 by (simp_all add: encodeUint_def Let_def)
      then have "(256 - length (bigEndian a)) mod 256 = (256 - length (bigEndian b)) mod 256"
        by simp
      moreover have "(256 - length (bigEndian a)) mod 256 = 256 - length (bigEndian a)"
        by (rule mod_less) (use la in linarith)
      moreover have "(256 - length (bigEndian b)) mod 256 = 256 - length (bigEndian b)"
        by (rule mod_less) (use lb in linarith)
      ultimately have "length (bigEndian a) = length (bigEndian b)"
        using la lb by arith
      then have "bigEndian a = bigEndian b \<and> r = r'"
        using rest by simp
      then show ?thesis using bigEndian_inj by blast
    qed
  qed
qed


lemma length_strings_body:
  "length xs \<le> length (concat (map (\<lambda>s. encodeUint (length s) @ s) xs))
   \<and> (\<forall>s \<in> set xs. length s < length (concat (map (\<lambda>s. encodeUint (length s) @ s) xs)))"
proof (induction xs)
  case Nil
  show ?case by simp
next
  case (Cons x xs)
  have "1 \<le> length (encodeUint (length x))"
    using length_encodeUint by blast
  then show ?case using Cons by auto
qed

lemma strings_body_inj:
  assumes "length xs = length ys"
    and "\<forall>s \<in> set xs. length s < 2 ^ 64" and "\<forall>s \<in> set ys. length s < 2 ^ 64"
    and "concat (map (\<lambda>s. encodeUint (length s) @ s) xs)
       = concat (map (\<lambda>s. encodeUint (length s) @ s) ys)"
  shows "xs = ys"
  using assms
proof (induction xs ys rule: list_induct2)
  case Nil
  show ?case by simp
next
  case (Cons x xs y ys)
  let ?body = "\<lambda>zs. concat (map (\<lambda>s. encodeUint (length s) @ s) zs)"
  have lx: "length x < 2 ^ 64" and ly: "length y < 2 ^ 64"
    and rx: "\<forall>s \<in> set xs. length s < 2 ^ 64" and ry: "\<forall>s \<in> set ys. length s < 2 ^ 64"
    using Cons.prems(1,2) by simp_all
  have eq: "encodeUint (length x) @ (x @ ?body xs) = encodeUint (length y) @ (y @ ?body ys)"
    using Cons.prems(3) by simp
  from encodeUint_prefix_free [OF lx ly eq]
  have len: "length x = length y" and tl: "x @ ?body xs = y @ ?body ys"
    by simp_all
  from tl len have "x = y" and "?body xs = ?body ys"
    by simp_all
  then show ?case
    using Cons.IH [OF rx ry] by simp
qed

lemma encodeStrings_inj:
  assumes "length (encodeStrings xs) < 2 ^ 64" and "length (encodeStrings ys) < 2 ^ 64"
    and "encodeStrings xs = encodeStrings ys"
  shows "xs = ys"
proof -
  let ?body = "\<lambda>zs. concat (map (\<lambda>s. encodeUint (length s) @ s) zs)"
  have bound: "length zs < 2 ^ 64 \<and> (\<forall>s \<in> set zs. length s < 2 ^ 64)"
    if "length (encodeStrings zs) < 2 ^ 64" for zs
  proof -
    have "length (?body zs) < 2 ^ 64"
      using that by (simp add: encodeStrings_def)
    then show ?thesis
      using length_strings_body [of zs] by fastforce
  qed
  have eq: "encodeUint (length xs) @ ?body xs = encodeUint (length ys) @ ?body ys"
    using assms(3) by (simp add: encodeStrings_def)
  have lx: "length xs < 2 ^ 64" and sx: "\<forall>s \<in> set xs. length s < 2 ^ 64"
    using bound [OF assms(1)] by (rule conjunct1, rule conjunct2)
  have ly: "length ys < 2 ^ 64" and sy: "\<forall>s \<in> set ys. length s < 2 ^ 64"
    using bound [OF assms(2)] by (rule conjunct1, rule conjunct2)
  from encodeUint_prefix_free [OF lx ly eq]
  have len: "length xs = length ys" and body: "?body xs = ?body ys"
    by (rule conjunct1, rule conjunct2)
  show ?thesis
    by (rule strings_body_inj [OF len sx sy body])
qed

text \<open>The encoding of a listing of two names, byte for byte.\<close>

lemma gobEncode_two_names:
  "gobEncode [''x.flac'', ''y.flac'']
     = Inr (typeDefinition @
         [char_of (18::nat), CHR 0xFF, CHR 0x82, CHR 0x00, char_of (2::nat),
          char_of (6::nat), CHR ''x'', CHR ''.'', CHR ''f'', CHR ''l'', CHR ''a'', CHR ''c'',
          char_of (6::nat), CHR ''y'', CHR ''.'', CHR ''f'', CHR ''l'', CHR ''a'', CHR ''c''])"
  by (simp add: gobEncode_def encodeStrings_def encodeUint_def tooBig_def)

text \<open>
  C4. The fingerprint is a function of the sequence of names, and on the sequences it
  encodes it is injective: two sequences have the same fingerprint exactly when they
  are the same sequence, name for name and in the same order.
\<close>

theorem fingerprint_injective:
  "gobEncode xs = Inr k \<and> gobEncode ys = Inr k' \<longrightarrow> (k = k' \<longleftrightarrow> xs = ys)"
proof (intro impI, elim conjE)
  assume x: "gobEncode xs = Inr k" and y: "gobEncode ys = Inr k'"
  let ?msg = "\<lambda>zs. [CHR 0xFF, CHR 0x82, CHR 0x00] @ encodeStrings zs"
  have big: "(2::nat) ^ 33 < 2 ^ 64" by simp
  have lx: "length (?msg xs) < 2 ^ 33" and kx: "k = typeDefinition @ encodeUint (length (?msg xs)) @ ?msg xs"
    using x by (auto simp: gobEncode_def tooBig_def Let_def split: if_splits)
  have ly: "length (?msg ys) < 2 ^ 33" and ky: "k' = typeDefinition @ encodeUint (length (?msg ys)) @ ?msg ys"
    using y by (auto simp: gobEncode_def tooBig_def Let_def split: if_splits)
  show "k = k' \<longleftrightarrow> xs = ys"
  proof
    assume "k = k'"
    then have "encodeUint (length (?msg xs)) @ ?msg xs = encodeUint (length (?msg ys)) @ ?msg ys"
      using kx ky by simp
    moreover have "length (?msg xs) < 2 ^ 64" and "length (?msg ys) < 2 ^ 64"
      using lx ly big by simp_all
    ultimately have "length (?msg xs) = length (?msg ys) \<and> ?msg xs = ?msg ys"
      by (rule encodeUint_prefix_free [rotated 2])
    then have "?msg xs = ?msg ys" ..
    then have "encodeStrings xs = encodeStrings ys" by simp
    moreover have "length (encodeStrings xs) < 2 ^ 64" and "length (encodeStrings ys) < 2 ^ 64"
      using lx ly big by simp_all
    ultimately show "xs = ys"
      by (simp add: encodeStrings_inj)
  next
    assume "xs = ys"
    then show "k = k'" using x y by simp
  qed
qed


theorem fingerprint_injective_witness:
  "gobEncode [''x.flac'', ''y.flac''] = Inr (projr (gobEncode [''x.flac'', ''y.flac'']))
   \<and> gobEncode [''y.flac'', ''x.flac''] = Inr (projr (gobEncode [''y.flac'', ''x.flac'']))
   \<and> projr (gobEncode [''x.flac'', ''y.flac'']) \<noteq> projr (gobEncode [''y.flac'', ''x.flac''])"
proof -
  have x: "gobEncode [''x.flac'', ''y.flac''] = Inr (projr (gobEncode [''x.flac'', ''y.flac'']))"
    and y: "gobEncode [''y.flac'', ''x.flac''] = Inr (projr (gobEncode [''y.flac'', ''x.flac'']))"
    by (simp_all add: gobEncode_def encodeStrings_def encodeUint_def tooBig_def)
  show ?thesis
    using x y fingerprint_injective [of "[''x.flac'', ''y.flac'']"
        "projr (gobEncode [''x.flac'', ''y.flac''])" "[''y.flac'', ''x.flac'']"
        "projr (gobEncode [''y.flac'', ''x.flac''])"]
    by simp
qed

section \<open>Running the scan of the source tree twice\<close>

text \<open>
  When the first run returns and the store accepts the key and the name of every
  detected album, the second run links nothing and counts every detected album as
  known (\<open>sync_twice_when_inserts_stored\<close>).
\<close>

lemma linkNewAlbums_loop_source:
  "source (state_of (linkNewAlbums_loop enc sourceDir targetDir es c w)) = source w
   \<and> locked (state_of (linkNewAlbums_loop enc sourceDir targetDir es c w)) = locked w"
proof (induction es arbitrary: c w)
  case Nil
  show ?case by simp
next
  case (Cons e es)
  obtain nm f where e: "e = (nm, f)" by (cases e)
  let ?G = "\<lambda>r. source (state_of r) = source w \<and> locked (state_of r) = locked w"
  have "?G (linkNewAlbums_loop enc sourceDir targetDir ((nm, f) # es) c w)"
    by (cases rule: linkNewAlbums_loop_cases [of f enc sourceDir targetDir nm es c w])
       (simp_all add: Cons.IH)
  then show ?case unfolding e .
qed

lemma inDb_True_iff:
  "inDb enc album s = Returned True s \<longleftrightarrow> (\<exists>key. enc (Contents album) = Inr key \<and> key \<in> dom s)"
  by (auto simp: inDb_def Get_def split: sum.splits)

lemma linkNewAlbums_loop_all_known:
  assumes "\<forall>(nm, f) \<in> set es. IsDir f \<and> isAlbum (Join sourceDir nm) f \<longrightarrow>
             inDb enc (newAlbum (Join sourceDir nm) f) (db w) = Returned True (db w)"
  shows "linkNewAlbums_loop enc sourceDir targetDir es c w
     = Returned
         (c\<lparr>regFiles := regFiles c + length (filter (\<lambda>(nm, f). \<not> IsDir f) es),
            oldAlbums := oldAlbums c
              + length (filter (\<lambda>(nm, f). IsDir f \<and> isAlbum (Join sourceDir nm) f) es)\<rparr>)
         w"
  using assms
proof (induction es arbitrary: c)
  case Nil
  show ?case by simp
next
  case (Cons e es)
  obtain nm f where e: "e = (nm, f)" by (cases e)
  have rest: "\<forall>(nm, f) \<in> set es. IsDir f \<and> isAlbum (Join sourceDir nm) f \<longrightarrow>
             inDb enc (newAlbum (Join sourceDir nm) f) (db w) = Returned True (db w)"
    using Cons.prems by simp
  have head: "IsDir f \<and> isAlbum (Join sourceDir nm) f \<longrightarrow>
             inDb enc (newAlbum (Join sourceDir nm) f) (db w) = Returned True (db w)"
    using Cons.prems by (simp add: e)
  show ?case
    unfolding e using head Cons.IH [OF rest]
    by (simp add: Let_def del: isAlbum.simps linkAlbum.simps)
qed

lemma linkNewAlbums_loop_stores:
  assumes "linkNewAlbums_loop enc sourceDir targetDir es c w = Returned c' w'"
    and "\<forall>(nm, f) \<in> set es. IsDir f \<and> isAlbum (Join sourceDir nm) f \<longrightarrow>
           (\<exists>key. enc (Contents (newAlbum (Join sourceDir nm) f)) = Inr key
                  \<and> key \<noteq> [] \<and> length key \<le> MaxKeySize)
           \<and> length (DirName (newAlbum (Join sourceDir nm) f)) \<le> MaxValueSize"
  shows "\<forall>(nm, f) \<in> set es. IsDir f \<and> isAlbum (Join sourceDir nm) f \<longrightarrow>
           inDb enc (newAlbum (Join sourceDir nm) f) (db w') = Returned True (db w')"
  using assms
proof (induction es arbitrary: c w)
  case Nil
  show ?case by simp
next
  case (Cons e es)
  obtain nm f where e: "e = (nm, f)" by (cases e)
  let ?run = "linkNewAlbums_loop enc sourceDir targetDir"
  let ?a = "newAlbum (Join sourceDir nm) f"
  let ?det = "\<lambda>(nm, f). IsDir f \<and> isAlbum (Join sourceDir nm) f"
  let ?known = "\<lambda>(nm, f). inDb enc (newAlbum (Join sourceDir nm) f) (db w') = Returned True (db w')"
  have ok: "\<forall>(nm, f) \<in> set es. IsDir f \<and> isAlbum (Join sourceDir nm) f \<longrightarrow>
           (\<exists>key. enc (Contents (newAlbum (Join sourceDir nm) f)) = Inr key
                  \<and> key \<noteq> [] \<and> length key \<le> MaxKeySize)
           \<and> length (DirName (newAlbum (Join sourceDir nm) f)) \<le> MaxValueSize"
    using Cons.prems(2) by simp
  have run: "?run ((nm, f) # es) c w = Returned c' w'"
    using Cons.prems(1) by (simp only: e)
  have later: "key \<in> dom (db w1) \<Longrightarrow> ?run es c1 w1 = Returned c' w' \<Longrightarrow> key \<in> dom (db w')"
    for key c1 w1
    using linkNewAlbums_loop_keeps [of key w1 enc sourceDir targetDir es c1] by simp
  have "(?det (nm, f) \<longrightarrow> ?known (nm, f)) \<and> (\<forall>x \<in> set es. ?det x \<longrightarrow> ?known x)"
  proof (cases rule: linkNewAlbums_loop_cases [of f enc sourceDir targetDir nm es c w])
    case regular
    have r: "?run es (c\<lparr>regFiles := regFiles c + 1\<rparr>) w = Returned c' w'"
      using run regular(2) by simp
    show ?thesis using regular(1) Cons.IH [OF r ok] by (auto simp del: isAlbum.simps)
  next
    case other
    have r: "?run es c w = Returned c' w'"
      using run other(3) by simp
    show ?thesis using other(2) Cons.IH [OF r ok] by (auto simp del: isAlbum.simps)
  next
    case fatal
    then show ?thesis using run by simp
  next
    case known
    have r: "?run es (c\<lparr>oldAlbums := oldAlbums c + 1\<rparr>) w = Returned c' w'"
      using run known(4) by simp
    from known(3) obtain key where key: "enc (Contents ?a) = Inr key" "key \<in> dom (db w)"
      unfolding inDb_True_iff by blast
    have "key \<in> dom (db w')" using later [OF key(2) r] .
    then have "?known (nm, f)" using key(1) by (simp add: inDb_True_iff)
    then show ?thesis using Cons.IH [OF r ok] by (auto simp del: isAlbum.simps)
  next
    case (failed t)
    then show ?thesis using run by simp
  next
    case (linked t)
    let ?w1 = "w\<lparr>target := t, db := state_of (addToDb enc ?a (db w))\<rparr>"
    have r: "?run es (c\<lparr>newAlbums := newAlbums c + 1\<rparr>) ?w1 = Returned c' w'"
      using run linked(5) by simp
    from Cons.prems(2) linked(1,2) obtain key
      where key: "enc (Contents ?a) = Inr key" "key \<noteq> []" "length key \<le> MaxKeySize"
        "length (DirName ?a) \<le> MaxValueSize"
      by (auto simp: e)
    then have "state_of (addToDb enc ?a (db w)) = (db w)(key \<mapsto> DirName ?a)"
      by (simp add: addToDb_def Put_def)
    then have "key \<in> dom (db ?w1)" by simp
    then have "key \<in> dom (db w')" using later [OF _ r] by blast
    then have "?known (nm, f)" using key(1) by (simp add: inDb_True_iff)
    then show ?thesis using Cons.IH [OF r ok] by (auto simp del: isAlbum.simps)
  qed
  then show ?case unfolding e by (auto simp del: isAlbum.simps)
qed

lemma sync_twice_when_inserts_stored:
  assumes first: "linkNewAlbums enc sourceDir targetDir w = Returned c w'"
    and listing: "ReadDir (source w) = Inr es"
    and storable: "\<forall>(nm, f) \<in> set es. IsDir f \<and> isAlbum (Join sourceDir nm) f \<longrightarrow>
           (\<exists>key. enc (Contents (newAlbum (Join sourceDir nm) f)) = Inr key
                  \<and> key \<noteq> [] \<and> length key \<le> MaxKeySize)
           \<and> length (DirName (newAlbum (Join sourceDir nm) f)) \<le> MaxValueSize"
  shows "linkNewAlbums enc sourceDir targetDir w'
     = Returned
         \<lparr>regFiles = length (filter (\<lambda>(nm, f). \<not> IsDir f) es),
          newAlbums = 0,
          oldAlbums = length (filter (\<lambda>(nm, f). IsDir f \<and> isAlbum (Join sourceDir nm) f) es)\<rparr>
         w'"
proof -
  let ?zero = "\<lparr>regFiles = 0, newAlbums = 0, oldAlbums = 0\<rparr>"
  have unlocked: "\<not> locked w"
    using first by (auto simp: linkNewAlbums_def Open_def split: if_splits)
  then have loop: "linkNewAlbums_loop enc sourceDir targetDir es ?zero w = Returned c w'"
    using first listing by (simp add: linkNewAlbums_def Open_def)
  have "w' = state_of (linkNewAlbums_loop enc sourceDir targetDir es ?zero w)"
    by (simp add: loop)
  then have same: "source w' = source w" "locked w' = locked w"
    using linkNewAlbums_loop_source [of enc sourceDir targetDir es ?zero w] by simp_all
  have known: "\<forall>(nm, f) \<in> set es. IsDir f \<and> isAlbum (Join sourceDir nm) f \<longrightarrow>
           inDb enc (newAlbum (Join sourceDir nm) f) (db w') = Returned True (db w')"
    using linkNewAlbums_loop_stores [OF loop storable] .
  show ?thesis
    using same unlocked listing linkNewAlbums_loop_all_known [OF known, of targetDir ?zero]
    by (simp add: linkNewAlbums_def Open_def)
qed


lemma distinct_longNames: "distinct (longNames n)"
proof -
  have "inj_on (\<lambda>i. replicate (Suc i) CHR ''a'' @ ''.flac'') (set [0..<n])"
  proof (rule inj_onI)
    fix i j
    assume "replicate (Suc i) CHR ''a'' @ ''.flac'' = replicate (Suc j) CHR ''a'' @ ''.flac''"
    then have "length (replicate (Suc i) CHR ''a'' @ ''.flac'')
        = length (replicate (Suc j) CHR ''a'' @ ''.flac'')"
      by (rule arg_cong)
    then show "i = j" by simp
  qed
  then show ?thesis
    by (simp add: longNames_def distinct_map)
qed

lemma length_longNames: "length (longNames n) = n"
  by (simp add: longNames_def)

lemma sum_length_longNames: "2 * sum_list (map length (longNames n)) = n * (n + 11)"
proof (induction n)
  case 0
  show ?case by (simp add: longNames_def)
next
  case (Suc n)
  have "sum_list (map length (longNames (Suc n))) = sum_list (map length (longNames n)) + (n + 6)"
    by (simp add: longNames_def)
  then show ?case using Suc by (simp add: algebra_simps)
qed

lemma longNames_short: "name \<in> set (longNames n) \<Longrightarrow> length name \<le> n + 5"
  by (auto simp: longNames_def)

lemma length_encodeStrings:
  "1 + length xs + sum_list (map length xs) \<le> length (encodeStrings xs)
   \<and> length (encodeStrings xs) \<le> 1 + 2 * length xs + 2 * sum_list (map length xs)"
proof -
  let ?body = "\<lambda>zs. concat (map (\<lambda>s. encodeUint (length s) @ s) zs)"
  have "length xs + sum_list (map length xs) \<le> length (?body xs)
      \<and> length (?body xs) \<le> length xs + 2 * sum_list (map length xs)"
  proof (induction xs)
    case Nil
    show ?case by simp
  next
    case (Cons x xs)
    then show ?case
      using length_encodeUint [of "length x"] by simp
  qed
  then show ?thesis
    using length_encodeUint [of "length xs"] by (simp add: encodeStrings_def)
qed

lemma gobEncode_length:
  assumes "4 + 2 * length xs + 2 * sum_list (map length xs) < tooBig"
  shows "\<exists>key. gobEncode xs = Inr key
           \<and> 18 + length xs + sum_list (map length xs) \<le> length key"
proof -
  let ?msg = "[CHR 0xFF, CHR 0x82, CHR 0x00] @ encodeStrings xs"
  have "length ?msg < tooBig"
    using assms length_encodeStrings [of xs] by simp
  then have "gobEncode xs = Inr (typeDefinition @ encodeUint (length ?msg) @ ?msg)"
    by (simp add: gobEncode_def)
  moreover have "18 + length xs + sum_list (map length xs)
      \<le> length (typeDefinition @ encodeUint (length ?msg) @ ?msg)"
    using length_encodeStrings [of xs] length_encodeUint [of "length ?msg"]
    by (simp add: typeDefinition_def)
  ultimately show ?thesis by blast
qed

lemma gobEncode_longNames:
  "\<exists>key. gobEncode (longNames 250) = Inr key \<and> MaxKeySize < length key"
proof -
  have s: "sum_list (map length (longNames 250)) = 32625"
    using sum_length_longNames [of 250] by simp
  have "4 + 2 * length (longNames 250) + 2 * sum_list (map length (longNames 250)) < tooBig"
    by (simp add: s length_longNames tooBig_def)
  from gobEncode_length [OF this] show ?thesis
    by (auto simp: s length_longNames MaxKeySize_def)
qed


lemma set_map_fst_insort:
  "set (map fst (insort_key fst e es)) = insert (fst e) (set (map fst es))"
  by (simp add: set_insort_key)

lemma linkAlbum_loop_files:
  assumes "\<forall>e \<in> set es. snd e = File vol"
    and "distinct (map fst es)"
    and "set (map fst es) \<inter> set (map fst ds) = {}"
  shows "\<exists>ds'. linkAlbum_loop vol p es q (Dir ds) = Returned () (Dir ds')"
  using assms
proof (induction es arbitrary: ds)
  case Nil
  show ?case by simp
next
  case (Cons e es)
  obtain m f where e: "e = (m, f)" by (cases e)
  have f: "f = File vol" and m: "m \<notin> set (map fst ds)"
    using Cons.prems(1,3) by (auto simp: e)
  let ?ds = "insort_key fst (m, File vol) ds"
  have "set (map fst es) \<inter> set (map fst ?ds) = {}"
    using Cons.prems(2,3) unfolding set_map_fst_insort by (auto simp: e)
  then obtain ds' where "linkAlbum_loop vol p es q (Dir ?ds) = Returned () (Dir ds')"
    using Cons.IH [of ?ds] Cons.prems(1,2) by auto
  then show ?case
    using m by (simp add: e f del: linkAlbum.simps)
qed

lemma linkAlbum_files:
  assumes "\<forall>e \<in> set es. snd e = File vol" and "distinct (map fst es)"
  shows "\<exists>ds'. linkAlbum vol p (Dir es) q (Dir []) = Returned () (Dir [(Base p, Dir ds')])"
proof -
  from linkAlbum_loop_files [OF assms, of "[]" p "Join q (Base p)"] obtain ds'
    where "linkAlbum_loop vol p es (Join q (Base p)) (Dir []) = Returned () (Dir ds')"
    by auto
  then show ?thesis by (simp add: Let_def)
qed

lemma isAlbum_bigAlbum: "0 < n \<Longrightarrow> isAlbum ''/downloads/A'' (bigAlbum n)"
proof -
  assume "0 < n"
  then obtain k where n: "n = Suc k" by (cases n) auto
  have "[0..<Suc k] = 0 # [Suc 0..<Suc k]"
    by (rule upt_conv_Cons) simp
  then have "longNames n = ''a.flac'' # map (\<lambda>i. replicate (Suc i) CHR ''a'' @ ''.flac'') [Suc 0..<Suc k]"
    by (simp add: longNames_def n)
  then show ?thesis
    by (simp add: bigAlbum_def Join_def Ext_def)
qed

lemma newAlbum_bigAlbum:
  "newAlbum ''/downloads/A'' (bigAlbum n) = \<lparr>DirName = ''A'', Contents = longNames n\<rparr>"
  by (simp add: newAlbum_def bigAlbum_def Base_def comp_def)

lemma linkAlbum_bigAlbum:
  "\<exists>ds'. linkAlbum 0 ''/downloads/A'' (bigAlbum n) ''/music'' (Dir [])
            = Returned () (Dir [(''A'', Dir ds')])"
proof -
  have "\<forall>e \<in> set (map (\<lambda>name. (name, File 0)) (longNames n)). snd e = File 0"
    by simp
  moreover have "distinct (map fst (map (\<lambda>name. (name, File 0)) (longNames n)))"
    by (simp add: comp_def distinct_longNames)
  moreover have "Base ''/downloads/A'' = ''A''"
    by (simp add: Base_def)
  ultimately show ?thesis
    using linkAlbum_files [of "map (\<lambda>name. (name, File 0)) (longNames n)" 0
        "''/downloads/A''" "''/music''"]
    unfolding bigAlbum_def by simp
qed

text \<open>
  C2 does not hold of the program. With 250 files in the album, no name longer than 255
  bytes, the fingerprint is longer than \<open>MaxKeySize\<close>. The first run links the
  album, the store refuses the key, \<^verbatim>\<open>linkNewAlbums\<close> does not look at what
  \<^verbatim>\<open>addToDb\<close> returns, and the run returns reporting one new album while the store is
  still empty. The second run, on the trees and the store as the first left them, does
  not find the album in the store, starts to link it again and ends the process on the
  directory that is already there: it reports nothing.
\<close>

theorem second_run_after_rejected_insert:
  "linkNewAlbums gobEncode ''/downloads'' ''/music'' (bigAlbumWorld 250)
     = Returned \<lparr>regFiles = 0, newAlbums = 1, oldAlbums = 0\<rparr>
         (state_of (linkNewAlbums gobEncode ''/downloads'' ''/music'' (bigAlbumWorld 250)))
   \<and> db (state_of (linkNewAlbums gobEncode ''/downloads'' ''/music'' (bigAlbumWorld 250)))
       = Map.empty
   \<and> source (state_of (linkNewAlbums gobEncode ''/downloads'' ''/music'' (bigAlbumWorld 250)))
       = source (bigAlbumWorld 250)
   \<and> linkNewAlbums gobEncode ''/downloads'' ''/music''
         (state_of (linkNewAlbums gobEncode ''/downloads'' ''/music'' (bigAlbumWorld 250)))
     = Exited (state_of (linkNewAlbums gobEncode ''/downloads'' ''/music'' (bigAlbumWorld 250)))"
proof -
  let ?a = "\<lparr>DirName = ''A'', Contents = longNames 250\<rparr>"
  from gobEncode_longNames obtain key
    where key: "gobEncode (longNames 250) = Inr key" "MaxKeySize < length key"
    by blast
  from linkAlbum_bigAlbum [of 250] obtain ds'
    where lnk: "linkAlbum 0 ''/downloads/A'' (bigAlbum 250) ''/music'' (Dir [])
            = Returned () (Dir [(''A'', Dir ds')])"
    by blast
  have alb: "isAlbum ''/downloads/A'' (bigAlbum 250)"
    by (rule isAlbum_bigAlbum) simp
  have miss: "inDb gobEncode ?a Map.empty = Returned False Map.empty"
    using key(1) by (simp add: inDb_def Get_def)
  have add: "addToDb gobEncode ?a Map.empty = Returned (Some ErrKeyTooLarge) Map.empty"
    using key by (auto simp: addToDb_def Put_def)
  have dir: "IsDir (bigAlbum 250)"
    by (simp add: bigAlbum_def)
  have path: "Join ''/downloads'' ''A'' = ''/downloads/A''"
    by (simp add: Join_def)
  let ?w1 = "\<lparr>source = Dir [(''A'', bigAlbum 250)], target = Dir [(''A'', Dir ds')], volume = 0,
      db = Map.empty, locked = False\<rparr>"
  have run1: "linkNewAlbums gobEncode ''/downloads'' ''/music'' (bigAlbumWorld 250)
      = Returned \<lparr>regFiles = 0, newAlbums = 1, oldAlbums = 0\<rparr> ?w1"
    using alb miss add dir lnk
    by (simp add: linkNewAlbums_def Open_def bigAlbumWorld_def path newAlbum_bigAlbum
        del: isAlbum.simps linkAlbum.simps)
  have again: "linkAlbum 0 ''/downloads/A'' (bigAlbum 250) ''/music'' (Dir [(''A'', Dir ds')])
      = Exited (Dir [(''A'', Dir ds')])"
    by (simp add: Base_def)
  have run2: "linkNewAlbums gobEncode ''/downloads'' ''/music'' ?w1 = Exited ?w1"
    using alb miss dir again
    by (simp add: linkNewAlbums_def Open_def path newAlbum_bigAlbum
        del: isAlbum.simps linkAlbum.simps)
  show ?thesis
    unfolding run1 state_of.simps run2 by (simp add: bigAlbumWorld_def)
qed

end
